theory Spec2Isabelle
  imports Main "HOL-Library.Word"
begin

section \<open>Common definitions\<close>

text \<open>
  Every \<^verbatim>\<open>assert\<close>, every dereference of a null pointer and every exhausted
  recursion budget of the model is a value of the type \<open>error\<close>; a function that can
  fail returns \<open>error + 'a\<close> with \<open>Inl\<close> for the failure.  Each assertion of the
  source has a constructor of its own, so that a theorem can say which assertion fails.
\<close>

datatype error =
    OutOfFuel
  | NullDereference
  | DanglingPointer
  | AssertRoot
  | AssertToProcessNotEmpty
  | AssertToProcessSize
  | AssertToProcessEmptyAtEnd
  | AssertChangedEmptyAtEnd
  | AssertPointsToInfoStore
  | AssertPointsToInfoCall
  | AssertPointsToNotEmpty
  | AssertReallocNotImplemented
  | AssertIntrinsicNotImplemented
  | AssertSubgraph
  | AssertBlockPair
  | AssertSuccPair
  | AssertFirst
  | AssertRetsNotEmpty

text \<open>
  Modelled from the spec: the constant \<^verbatim>\<open>UNKNOWN_OFFSET\<close> is declared in a header that
  is not among the sources.  The spec calls it a sentinel of the offset type; offsets are
  \<^verbatim>\<open>uint64_t\<close>, and the sentinel is taken to be the all-ones word.  No theorem
  below depends on the value chosen.
\<close>

definition UNKNOWN_OFFSET :: "64 word" where
  "UNKNOWN_OFFSET = - 1"

section \<open>PointerAnalysis.h\<close>

subsection \<open>Data model\<close>

text \<open>
  Modelled from the spec: the classes \<^verbatim>\<open>PSNode\<close> and \<^verbatim>\<open>PointerSubgraph\<close> are
  declared in headers that are not among the sources.  A node is identified by its
  address (a natural number); the subgraph keeps a store from addresses to nodes, the
  address of its root (\<open>None\<close> for the null pointer) and the number of nodes it owns.
  Of a node the header uses the kind (\<^verbatim>\<open>getType\<close>), the offset (\<^verbatim>\<open>setOffset\<close>)
  and, through the enumeration of nodes, the successors.
\<close>

datatype PSNodeType =
  ALLOC | LOAD | STORE | GEP | PHI | CAST | CALL | RETURN | FUNCTION
  | NULLPTR_NODE | UNKNOWN_MEM | CONSTANT | NOOP

record PSNode =
  ntype :: PSNodeType
  noffset :: "64 word"
  successors :: "nat list"

record PointerSubgraph =
  PS_root :: "nat option"
  PS_heap :: "nat \<Rightarrow> PSNode"
  PS_size :: nat

text \<open>
  The class \<^verbatim>\<open>PointerAnalysis\<close> with its data members.  A subclass extends the
  record; its virtual methods are parameters of \<open>run\<close> below.
\<close>

record 'a PointerAnalysis =
  PS :: "'a PointerSubgraph_scheme"
  SCCs :: "nat list list"
  max_offset :: "64 word"
  preprocess_geps :: bool
  invalidate_nodes :: bool
  to_process :: "nat list"
  changed :: "nat list"

subsection \<open>preprocessGEPs\<close>

text \<open>The inner loop \<^verbatim>\<open>for (PSNode *n : scc)\<close>.\<close>

fun preprocess_scc :: "nat list \<Rightarrow> (nat \<Rightarrow> PSNode) \<Rightarrow> (nat \<Rightarrow> PSNode)" where
  "preprocess_scc [] h = h"
| "preprocess_scc (n # ns) h =
     preprocess_scc ns
       (if ntype (h n) = GEP then h(n := (h n)\<lparr>noffset := UNKNOWN_OFFSET\<rparr>) else h)"

text \<open>The outer loop \<^verbatim>\<open>for (const auto& scc : SCCs)\<close>.\<close>

fun preprocess_sccs :: "nat list list \<Rightarrow> (nat \<Rightarrow> PSNode) \<Rightarrow> (nat \<Rightarrow> PSNode)" where
  "preprocess_sccs [] h = h"
| "preprocess_sccs (scc # sccs) h =
     preprocess_sccs sccs (if 1 < length scc then preprocess_scc scc h else h)"

definition preprocessGEPs ::
  "('a, 'b) PointerAnalysis_scheme \<Rightarrow> ('a, 'b) PointerAnalysis_scheme" where
  "preprocessGEPs pa =
     pa\<lparr>PS := (PS pa)\<lparr>PS_heap := preprocess_sccs (SCCs pa) (PS_heap (PS pa))\<rparr>\<rparr>"

subsection \<open>Enumeration of nodes\<close>

text \<open>
  Modelled from the spec: \<^verbatim>\<open>PointerSubgraph::getNodes\<close> is declared in a header
  that is not among the sources.  The spec gives it two forms: from a start node (the
  root when none is given) it returns all nodes reachable from it; from a set of seeds
  it returns the nodes reachable from any seed, deduplicated; the third argument is a
  capacity hint.  The model closes the start list under successors breadth first, one
  layer per round; after as many rounds as the subgraph owns nodes nothing new appears.
\<close>

definition add_layer :: "(nat \<Rightarrow> PSNode) \<Rightarrow> nat list \<Rightarrow> nat list" where
  "add_layer h acc =
     acc @ filter (\<lambda>n. n \<notin> set acc)
             (remdups (concat (map (\<lambda>n. successors (h n)) acc)))"

definition getNodes ::
  "'a PointerSubgraph_scheme \<Rightarrow> nat option \<Rightarrow> nat list option \<Rightarrow> nat \<Rightarrow> nat list" where
  "getNodes ps start_node start_set expected_num =
     (case start_set of
        Some seeds \<Rightarrow> (add_layer (PS_heap ps) ^^ PS_size ps) (remdups seeds)
      | None \<Rightarrow>
          (case (case start_node of None \<Rightarrow> PS_root ps | Some n \<Rightarrow> Some n) of
             None \<Rightarrow> []
           | Some n \<Rightarrow> (add_layer (PS_heap ps) ^^ PS_size ps) [n]))"

subsection \<open>run\<close>

text \<open>
  The virtual method \<^verbatim>\<open>enqueue\<close> in the form the class gives it.
\<close>

definition enqueue ::
  "nat \<Rightarrow> ('a, 'b) PointerAnalysis_scheme \<Rightarrow> ('a, 'b) PointerAnalysis_scheme" where
  "enqueue n pa = pa\<lparr>changed := changed pa @ [n]\<rparr>"

text \<open>
  \<^verbatim>\<open>beforeProcessed\<close>, \<^verbatim>\<open>processNode\<close> and \<^verbatim>\<open>afterProcessed\<close> are
  parameters: the first and the last are virtual, and \<^verbatim>\<open>processNode\<close> is only declared
  in the header.  Each takes the node and the subgraph (with whatever a subclass keeps
  beside it, in the extension of the record), and returns its boolean and the subgraph
  it leaves; the two work lists are written by \<open>run\<close> and \<open>enqueue\<close> only.
\<close>

type_synonym 'a hook = "nat \<Rightarrow> 'a PointerSubgraph_scheme \<Rightarrow> bool \<times> 'a PointerSubgraph_scheme"

text \<open>The loop \<^verbatim>\<open>for (PSNode *cur : to_process)\<close>; all three calls are made, as
  \<^verbatim>\<open>|=\<close> does not short-circuit.\<close>

fun process_nodes ::
  "'a hook \<Rightarrow> 'a hook \<Rightarrow> 'a hook \<Rightarrow> nat list \<Rightarrow>
   ('a, 'b) PointerAnalysis_scheme \<Rightarrow> ('a, 'b) PointerAnalysis_scheme" where
  "process_nodes beforeProcessed processNode afterProcessed [] pa = pa"
| "process_nodes beforeProcessed processNode afterProcessed (cur # rest) pa =
     (let (e1, ps1) = beforeProcessed cur (PS pa);
          (e2, ps2) = processNode cur ps1;
          (e3, ps3) = afterProcessed cur ps2;
          enq = (e1 \<or> e2 \<or> e3);
          pa1 = pa\<lparr>PS := ps3\<rparr>;
          pa2 = (if enq then enqueue cur pa1 else pa1)
      in process_nodes beforeProcessed processNode afterProcessed rest pa2)"

text \<open>
  One pass of the \<^verbatim>\<open>do \<dots> while\<close> body up to the test of the loop: the result is
  the analysis as the test sees it, or the assertion that failed.
\<close>

definition run_body ::
  "'a hook \<Rightarrow> 'a hook \<Rightarrow> 'a hook \<Rightarrow> ('a, 'b) PointerAnalysis_scheme \<Rightarrow>
   error + ('a, 'b) PointerAnalysis_scheme" where
  "run_body beforeProcessed processNode afterProcessed pa =
     (let last_processed_num = length (to_process pa) mod 2 ^ 32;
          pa1 = pa\<lparr>changed := []\<rparr>;
          pa2 = process_nodes beforeProcessed processNode afterProcessed (to_process pa1) pa1;
          pa3 = pa2\<lparr>to_process := []\<rparr>
      in if changed pa3 \<noteq> [] then
           (let pa4 = pa3\<lparr>to_process :=
                        getNodes (PS pa3) None (Some (changed pa3)) last_processed_num\<rparr>
            in if to_process pa4 = [] then Inl AssertToProcessNotEmpty
               else if length (to_process pa4) < length (changed pa4) then Inl AssertToProcessSize
               else Inr pa4)
         else Inr pa3)"

text \<open>
  The \<^verbatim>\<open>do \<dots> while (!to_process.empty())\<close> loop and the two assertions after
  it.  The loop runs as long as the hooks report changes, so the model counts the passes
  and gives \<open>OutOfFuel\<close> when the count is used up.
\<close>

fun run_loop ::
  "nat \<Rightarrow> 'a hook \<Rightarrow> 'a hook \<Rightarrow> 'a hook \<Rightarrow> ('a, 'b) PointerAnalysis_scheme \<Rightarrow>
   error + ('a, 'b) PointerAnalysis_scheme" where
  "run_loop 0 beforeProcessed processNode afterProcessed pa = Inl OutOfFuel"
| "run_loop (Suc fuel) beforeProcessed processNode afterProcessed pa =
     (case run_body beforeProcessed processNode afterProcessed pa of
        Inl e \<Rightarrow> Inl e
      | Inr pa' \<Rightarrow>
          if to_process pa' \<noteq> [] then
            run_loop fuel beforeProcessed processNode afterProcessed pa'
          else if to_process pa' \<noteq> [] then Inl AssertToProcessEmptyAtEnd
          else if changed pa' \<noteq> [] then Inl AssertChangedEmptyAtEnd
          else Inr pa')"

definition run ::
  "nat \<Rightarrow> 'a hook \<Rightarrow> 'a hook \<Rightarrow> 'a hook \<Rightarrow> ('a, 'b) PointerAnalysis_scheme \<Rightarrow>
   error + ('a, 'b) PointerAnalysis_scheme" where
  "run fuel beforeProcessed processNode afterProcessed pa =
     (case PS_root (PS pa) of
        None \<Rightarrow> Inl AssertRoot
      | Some root \<Rightarrow>
          (let pa1 = (if preprocess_geps pa then preprocessGEPs pa else pa);
               pa2 = pa1\<lparr>to_process := getNodes (PS pa1) (Some root) None 0\<rparr>
           in run_loop fuel beforeProcessed processNode afterProcessed pa2))"

section \<open>LLVMReachingDefinitions.cpp\<close>

subsection \<open>The intermediate representation\<close>

text \<open>
  Values, instructions, basic blocks and functions of the module are identified by
  their addresses (natural numbers).  Of a type only \<^verbatim>\<open>isSized\<close> and its identity
  are used; of an instruction the opcode and the operands the builder reads:
  for a store the type of operand 0 and operand 1, for a call whether it is a
  \<^verbatim>\<open>DbgValueInst\<close> and the called value after \<^verbatim>\<open>stripPointerCasts\<close>, which is
  a function (the \<^verbatim>\<open>dyn_cast\<close> succeeds) or another value.
\<close>

record Type =
  isSized :: bool
  type_id :: nat

datatype CalledValue = Func nat | FuncPtr nat

datatype Instruction =
    Alloca nat
  | Store nat Type nat
  | Ret nat
  | Call nat bool CalledValue
  | Other nat

fun inst_addr :: "Instruction \<Rightarrow> nat" where
  "inst_addr (Alloca a) = a"
| "inst_addr (Store a ty ptr) = a"
| "inst_addr (Ret a) = a"
| "inst_addr (Call a dbg cv) = a"
| "inst_addr (Other a) = a"

record BasicBlock =
  block_addr :: nat
  insts :: "Instruction list"
  block_succs :: "nat list"

text \<open>\<^verbatim>\<open>hasName\<close> holds when the name is not empty; \<^verbatim>\<open>size\<close> is the number of
  basic blocks.\<close>

record Function =
  getName :: string
  isIntrinsic :: bool
  blocks :: "BasicBlock list"

definition hasName :: "Function \<Rightarrow> bool" where
  "hasName F = (getName F \<noteq> [])"

text \<open>The module: its functions, each at its address.\<close>

record Module =
  funcs :: "(nat \<times> Function) list"

subsection \<open>The points-to information\<close>

text \<open>
  Modelled from the spec: the points-to graph (\<^verbatim>\<open>pss::PSSNode\<close>, \<^verbatim>\<open>pss::Pointer\<close>)
  and the analysis \<^verbatim>\<open>PTA\<close> are declared in headers that are not among the sources.
  A pointer is a pair of a target node and an offset; the two sentinel nodes
  \<^verbatim>\<open>NULLPTR\<close> and \<^verbatim>\<open>UNKNOWN_MEMORY\<close> are targets of their own, and a pointer is
  null when its target is \<^verbatim>\<open>NULLPTR\<close>.  The points-to set of a node is the list of
  its elements in the order of iteration, each once, so that \<^verbatim>\<open>size()\<close> is its
  length.  \<^verbatim>\<open>getPointsTo\<close> gives the node of a value (\<open>None\<close> for the null pointer) and
  \<^verbatim>\<open>getUserData\<close> the value a node was built from (\<open>None\<close> for the null pointer).
\<close>

datatype pss_target = NULLPTR | UNKNOWN_MEMORY | Node nat

record Pointer =
  target :: pss_target
  offset :: "64 word"

definition isNull :: "Pointer \<Rightarrow> bool" where
  "isNull ptr = (target ptr = NULLPTR)"

definition isUnknown :: "Pointer \<Rightarrow> bool" where
  "isUnknown ptr = (target ptr = UNKNOWN_MEMORY)"

record PSSNode =
  pointsTo :: "Pointer list"

record PointsToAnalysis =
  getPointsTo :: "nat \<Rightarrow> PSSNode option"
  getUserData :: "pss_target \<Rightarrow> nat option"

subsection \<open>The reaching-definitions graph and the builder\<close>

text \<open>
  Modelled from the spec: \<^verbatim>\<open>RDNode\<close> with \<^verbatim>\<open>addSuccessor\<close> and \<^verbatim>\<open>addDef\<close>, the
  record \<^verbatim>\<open>Subgraph\<close> and the members of \<^verbatim>\<open>LLVMRDBuilder\<close> with \<^verbatim>\<open>addNode\<close>
  are declared in headers that are not among the sources.  A node has a list of
  successors and its def-sites, tuples of the node of the allocation, the offset, the
  size and the strong-update flag; \<^verbatim>\<open>addSuccessor\<close> and \<^verbatim>\<open>addDef\<close> append.
  A subgraph is the pair of the entry node and the unified return node of a function.
  The builder keeps \<^verbatim>\<open>nodes_map\<close> from values to nodes, \<^verbatim>\<open>mapping\<close> from
  instructions to nodes and \<^verbatim>\<open>subgraphs_map\<close> from functions to subgraphs;
  \<^verbatim>\<open>addNode\<close> records a node in \<^verbatim>\<open>nodes_map\<close>.

  Nodes live in a store from addresses to nodes; \<^verbatim>\<open>new RDNode()\<close> takes the next
  free address.  A \<^verbatim>\<open>std::map\<close> to pointers that the source reads with
  \<^verbatim>\<open>operator[]\<close> is a partial map: \<open>None\<close> is both the missing key and the null
  entry that \<^verbatim>\<open>operator[]\<close> would insert, which no reader tells apart.  What the
  source prints to \<^verbatim>\<open>llvm::errs()\<close> is appended to \<open>errs\<close>.
\<close>

record DefSite =
  ds_target :: nat
  ds_offset :: "64 word"
  ds_len :: "64 word"
  ds_strong :: bool

record RDNode =
  rd_successors :: "nat list"
  rd_defs :: "DefSite list"

record Subgraph =
  root :: "nat option"
  ret :: "nat option"

datatype diagnostic = NoNodeForTarget nat

text \<open>What the builder is given: the module, the data layout (the allocation size of
  a type) and the points-to analysis.\<close>

record RDInputs =
  M :: Module
  DL :: "Type \<Rightarrow> 64 word"
  PTA :: PointsToAnalysis

record LLVMRDBuilder =
  nodes_map :: "nat \<rightharpoonup> nat"
  mapping :: "nat \<rightharpoonup> nat"
  subgraphs_map :: "nat \<rightharpoonup> Subgraph"
  rd_heap :: "nat \<Rightarrow> RDNode"
  rd_next :: nat
  errs :: "diagnostic list"

definition new_RDNode :: "LLVMRDBuilder \<Rightarrow> nat \<times> LLVMRDBuilder" where
  "new_RDNode s =
     (rd_next s,
      s\<lparr>rd_heap := (rd_heap s)(rd_next s := \<lparr>rd_successors = [], rd_defs = []\<rparr>),
        rd_next := Suc (rd_next s)\<rparr>)"

definition addNode :: "nat \<Rightarrow> nat \<Rightarrow> LLVMRDBuilder \<Rightarrow> LLVMRDBuilder" where
  "addNode val node s = s\<lparr>nodes_map := (nodes_map s)(val \<mapsto> node)\<rparr>"

definition addSuccessor :: "nat \<Rightarrow> nat \<Rightarrow> LLVMRDBuilder \<Rightarrow> LLVMRDBuilder" where
  "addSuccessor node succ s =
     s\<lparr>rd_heap := (rd_heap s)
        (node := (rd_heap s node)\<lparr>rd_successors := rd_successors (rd_heap s node) @ [succ]\<rparr>)\<rparr>"

definition addDef ::
  "nat \<Rightarrow> nat \<Rightarrow> 64 word \<Rightarrow> 64 word \<Rightarrow> bool \<Rightarrow> LLVMRDBuilder \<Rightarrow> LLVMRDBuilder" where
  "addDef node tgt off len strong s =
     s\<lparr>rd_heap := (rd_heap s)
        (node := (rd_heap s node)\<lparr>rd_defs := rd_defs (rd_heap s node) @
           [\<lparr>ds_target = tgt, ds_offset = off, ds_len = len, ds_strong = strong\<rparr>]\<rparr>)\<rparr>"

text \<open>\<^verbatim>\<open>subgraphs_map[F]\<close>, also for a null \<^verbatim>\<open>F\<close>: a subgraph of two null pointers
  when nothing is stored.\<close>

definition subgraph_at :: "LLVMRDBuilder \<Rightarrow> nat option \<Rightarrow> Subgraph" where
  "subgraph_at s F =
     (case F of
        None \<Rightarrow> \<lparr>root = None, ret = None\<rparr>
      | Some f \<Rightarrow>
          (case subgraphs_map s f of
             None \<Rightarrow> \<lparr>root = None, ret = None\<rparr>
           | Some subg \<Rightarrow> subg))"

subsection \<open>getAllocatedSize, createAlloc, createStore\<close>

definition getAllocatedSize :: "Type \<Rightarrow> (Type \<Rightarrow> 64 word) \<Rightarrow> 64 word" where
  "getAllocatedSize Ty dl = (if \<not> isSized Ty then 0 else dl Ty)"

definition createAlloc :: "nat \<Rightarrow> LLVMRDBuilder \<Rightarrow> nat \<times> LLVMRDBuilder" where
  "createAlloc Inst s = (let (node, s1) = new_RDNode s in (node, addNode Inst node s1))"

text \<open>
  The loop of \<open>createStore\<close> over the points-to set; \<open>n\<close> is
  \<^verbatim>\<open>pts->pointsTo.size()\<close>.  Printing \<^verbatim>\<open>*ptrVal\<close> dereferences the value, which
  fails when the target has no value.
\<close>

fun createStore_pointers ::
  "RDInputs \<Rightarrow> Type \<Rightarrow> nat \<Rightarrow> nat \<Rightarrow> Pointer list \<Rightarrow> LLVMRDBuilder \<Rightarrow> error + LLVMRDBuilder" where
  "createStore_pointers inp ty n node [] s = Inr s"
| "createStore_pointers inp ty n node (ptr # rest) s =
     (if isNull ptr then createStore_pointers inp ty n node rest s
      else
        (let ptrVal = getUserData (PTA inp) (target ptr);
             ptrNode = (case ptrVal of None \<Rightarrow> None | Some v \<Rightarrow> nodes_map s v)
         in case ptrNode of
              None \<Rightarrow>
                (case ptrVal of
                   None \<Rightarrow> Inl NullDereference
                 | Some v \<Rightarrow>
                     createStore_pointers inp ty n node rest
                       (s\<lparr>errs := errs s @ [NoNodeForTarget v]\<rparr>))
            | Some pn \<Rightarrow>
                (let size0 = getAllocatedSize ty (DL inp);
                     size = (if size0 = 0 then UNKNOWN_OFFSET else size0)
                 in createStore_pointers inp ty n node rest
                      (addDef node pn (offset ptr) size (n = 1) s))))"

definition createStore ::
  "RDInputs \<Rightarrow> nat \<Rightarrow> Type \<Rightarrow> nat \<Rightarrow> LLVMRDBuilder \<Rightarrow> error + (nat \<times> LLVMRDBuilder)" where
  "createStore inp Inst ty op1 s =
     (let (node, s1) = new_RDNode s;
          s2 = addNode Inst node s1
      in case getPointsTo (PTA inp) op1 of
           None \<Rightarrow> Inl AssertPointsToInfoStore
         | Some pts \<Rightarrow>
             (case createStore_pointers inp ty (length (pointsTo pts)) node (pointsTo pts) s2 of
                Inl e \<Rightarrow> Inl e
              | Inr s3 \<Rightarrow> Inr (node, s3)))"

subsection \<open>Calls\<close>

datatype MemAllocationFuncs = NONEMEM | MALLOC | CALLOC | ALLOCA

definition getMemAllocationFunc :: "Function option \<Rightarrow> error + MemAllocationFuncs" where
  "getMemAllocationFunc func =
     (case func of
        None \<Rightarrow> Inr NONEMEM
      | Some F \<Rightarrow>
          if \<not> hasName F then Inr NONEMEM
          else if getName F = ''malloc'' then Inr MALLOC
          else if getName F = ''calloc'' then Inr CALLOC
          else if getName F = ''alloca'' then Inr ALLOCA
          else if getName F = ''realloc'' then Inl AssertReallocNotImplemented
          else Inr NONEMEM)"

text \<open>
  \<open>buildFunction\<close>, \<open>buildBlock\<close>, \<open>createCall\<close> and \<open>createCallToFunction\<close> call one
  another.  The functions below take \<open>buildFunction\<close> as the parameter \<open>bf\<close>;
  \<open>buildFunction\<close> itself closes the recursion at the end.  \<open>bf\<close> takes the address
  of the function and the function (the reference \<^verbatim>\<open>*F\<close>, dereferenced by the
  caller).
\<close>

type_synonym build_fun =
  "nat \<Rightarrow> Function \<Rightarrow> LLVMRDBuilder \<Rightarrow> error + (nat \<times> LLVMRDBuilder)"

definition createCallToFunction ::
  "build_fun \<Rightarrow> RDInputs \<Rightarrow> nat \<Rightarrow> nat option \<Rightarrow> LLVMRDBuilder \<Rightarrow>
   error + ((nat \<times> nat) \<times> LLVMRDBuilder)" where
  "createCallToFunction bf inp CInst F s =
     (let (returnNode, s1) = new_RDNode s;
          (callNode, s2) = new_RDNode s1;
          subg = subgraph_at s2 F
      in case (if root subg = None then
                 (case F of
                    None \<Rightarrow> Inl NullDereference
                  | Some f \<Rightarrow>
                      (case map_of (funcs (M inp)) f of
                         None \<Rightarrow> Inl DanglingPointer
                       | Some Fn \<Rightarrow>
                           (case bf f Fn s2 of
                              Inl e \<Rightarrow> Inl e
                            | Inr (r, s3) \<Rightarrow> Inr (subgraph_at s3 F, s3))))
               else Inr (subg, s2)) of
           Inl e \<Rightarrow> Inl e
         | Inr (subg', s3) \<Rightarrow>
             (case (root subg', ret subg') of
                (Some r, Some t) \<Rightarrow>
                  Inr ((callNode, returnNode),
                       addSuccessor t returnNode (addSuccessor callNode r s3))
              | _ \<Rightarrow> Inl AssertSubgraph))"

text \<open>The loop of \<open>createCall\<close> over the points-to set of a called pointer.\<close>

fun createCall_pointers ::
  "build_fun \<Rightarrow> RDInputs \<Rightarrow> nat \<Rightarrow> nat \<Rightarrow> nat \<Rightarrow> Pointer list \<Rightarrow> LLVMRDBuilder \<Rightarrow>
   error + LLVMRDBuilder" where
  "createCall_pointers bf inp CInst call_funcptr ret_call [] s = Inr s"
| "createCall_pointers bf inp CInst call_funcptr ret_call (ptr # rest) s =
     (if isNull ptr then createCall_pointers bf inp CInst call_funcptr ret_call rest s
      else
        (let F = getUserData (PTA inp) (target ptr)
         in case createCallToFunction bf inp CInst F s of
              Inl e \<Rightarrow> Inl e
            | Inr (cf, s1) \<Rightarrow>
                createCall_pointers bf inp CInst call_funcptr ret_call rest
                  (addSuccessor (snd cf) ret_call (addSuccessor call_funcptr (fst cf) s1))))"

text \<open>
  \<open>createCall\<close>.  The pointers it returns come from \<^verbatim>\<open>new\<close>, so the result is a
  pair of addresses and the assertion at its end holds by construction.
\<close>

definition createCall ::
  "build_fun \<Rightarrow> RDInputs \<Rightarrow> nat \<Rightarrow> CalledValue \<Rightarrow> LLVMRDBuilder \<Rightarrow>
   error + ((nat \<times> nat) \<times> LLVMRDBuilder)" where
  "createCall bf inp CInst calledVal s =
     (case calledVal of
        Func f \<Rightarrow>
          (case map_of (funcs (M inp)) f of
             None \<Rightarrow> Inl DanglingPointer
           | Some func \<Rightarrow>
               (case getMemAllocationFunc (Some func) of
                  Inl e \<Rightarrow> Inl e
                | Inr type \<Rightarrow>
                    if type \<noteq> NONEMEM \<or> length (blocks func) = 0 then
                      (let (n, s1) = createAlloc CInst s in Inr ((n, n), s1))
                    else if isIntrinsic func then Inl AssertIntrinsicNotImplemented
                    else
                      (case createCallToFunction bf inp CInst (Some f) s of
                         Inl e \<Rightarrow> Inl e
                       | Inr (cf, s1) \<Rightarrow> Inr (cf, addNode CInst (fst cf) s1))))
      | FuncPtr v \<Rightarrow>
          (case getPointsTo (PTA inp) v of
             None \<Rightarrow> Inl AssertPointsToInfoCall
           | Some op \<Rightarrow>
               if pointsTo op = [] then Inl AssertPointsToNotEmpty
               else if 1 < length (pointsTo op) then
                 (let (call_funcptr, s1) = new_RDNode s;
                      (ret_call, s2) = new_RDNode s1;
                      s3 = addNode CInst call_funcptr s2
                  in case createCall_pointers bf inp CInst call_funcptr ret_call
                            (pointsTo op) s3 of
                       Inl e \<Rightarrow> Inl e
                     | Inr s4 \<Rightarrow> Inr ((call_funcptr, ret_call), s4))
               else
                 (let F = getUserData (PTA inp) (target (hd (pointsTo op)))
                  in createCallToFunction bf inp CInst F s)))"

subsection \<open>buildBlock\<close>

text \<open>
  The end of the body of the loop of \<open>buildBlock\<close>:
  \<^verbatim>\<open>if (prev_node && prev_node != node) prev_node->addSuccessor(node)\<close>.
\<close>

definition link_prev :: "nat option \<Rightarrow> nat option \<Rightarrow> LLVMRDBuilder \<Rightarrow> error + LLVMRDBuilder" where
  "link_prev prev_node node s =
     (case prev_node of
        None \<Rightarrow> Inr s
      | Some p \<Rightarrow>
          if prev_node \<noteq> node then
            (case node of None \<Rightarrow> Inl NullDereference | Some n \<Rightarrow> Inr (addSuccessor p n s))
          else Inr s)"

text \<open>
  The body of the loop over the instructions of a block, for the instruction \<open>Inst\<close>;
  \<open>node\<close> is the current node, and the result is the current node after it.
\<close>

definition buildBlock_inst ::
  "build_fun \<Rightarrow> RDInputs \<Rightarrow> Instruction \<Rightarrow> nat option \<Rightarrow> LLVMRDBuilder \<Rightarrow>
   error + (nat option \<times> LLVMRDBuilder)" where
  "buildBlock_inst bf inp Inst node s =
     (let s1 = s\<lparr>mapping := (mapping s)(inst_addr Inst := node)\<rparr>;
          prev_node = node
      in case (case Inst of
                 Alloca a \<Rightarrow>
                   (let (n, s2) = createAlloc a s1 in Inr (prev_node, Some n, s2))
               | Store a ty ptr \<Rightarrow>
                   (case createStore inp a ty ptr s1 of
                      Inl e \<Rightarrow> Inl e
                    | Inr (n, s2) \<Rightarrow> Inr (prev_node, Some n, s2))
               | Ret a \<Rightarrow>
                   (let (n, s2) = createAlloc a s1 in Inr (prev_node, Some n, s2))
               | Call a dbg cv \<Rightarrow>
                   if dbg then Inr (prev_node, node, s1)
                   else
                     (case createCall bf inp a cv s1 of
                        Inl e \<Rightarrow> Inl e
                      | Inr (subg, s2) \<Rightarrow>
                          (case prev_node of
                             None \<Rightarrow> Inl NullDereference
                           | Some p \<Rightarrow>
                               Inr (Some (snd subg), Some (snd subg),
                                    addSuccessor p (fst subg) s2)))
               | Other a \<Rightarrow> Inr (prev_node, node, s1)) of
           Inl e \<Rightarrow> Inl e
         | Inr (prev_node', node', s3) \<Rightarrow>
             (case link_prev prev_node' node' s3 of
                Inl e \<Rightarrow> Inl e
              | Inr s4 \<Rightarrow> Inr (node', s4)))"

text \<open>The loop \<^verbatim>\<open>for (const Instruction& Inst : block)\<close>.\<close>

fun buildBlock_insts ::
  "build_fun \<Rightarrow> RDInputs \<Rightarrow> Instruction list \<Rightarrow> nat option \<Rightarrow> LLVMRDBuilder \<Rightarrow>
   error + (nat option \<times> LLVMRDBuilder)" where
  "buildBlock_insts bf inp [] node s = Inr (node, s)"
| "buildBlock_insts bf inp (Inst # rest) node s =
     (case buildBlock_inst bf inp Inst node s of
        Inl e \<Rightarrow> Inl e
      | Inr (node', s') \<Rightarrow> buildBlock_insts bf inp rest node' s')"

definition buildBlock ::
  "build_fun \<Rightarrow> RDInputs \<Rightarrow> BasicBlock \<Rightarrow> LLVMRDBuilder \<Rightarrow>
   error + ((nat option \<times> nat option) \<times> LLVMRDBuilder)" where
  "buildBlock bf inp block s =
     (let (node, s1) = new_RDNode s
      in case buildBlock_insts bf inp (insts block) (Some node) s1 of
           Inl e \<Rightarrow> Inl e
         | Inr (last_node, s2) \<Rightarrow> Inr ((Some node, last_node), s2))"

text \<open>
  The instructions for which the loop of \<open>buildBlock\<close> creates no node: a call that is a
  \<^verbatim>\<open>DbgValueInst\<close> and every instruction that is none of alloca, store, return and call.
\<close>

fun emits_no_node :: "Instruction \<Rightarrow> bool" where
  "emits_no_node (Call a dbg cv) = dbg"
| "emits_no_node (Other a) = True"
| "emits_no_node i = False"

subsection \<open>blockAddSuccessors\<close>

text \<open>
  The successors of a block are addresses of blocks of the same function; \<open>bbs\<close> are
  these blocks, in which \<^verbatim>\<open>*S\<close> is looked up.  The function calls itself on a
  successor that has no nodes, and on a cycle of such blocks it never returns: the
  model counts the depth of these calls and gives \<open>OutOfFuel\<close> when the count is used
  up.
\<close>

type_synonym built_blocks = "nat \<rightharpoonup> (nat option \<times> nat option)"

definition built_at :: "built_blocks \<Rightarrow> nat \<Rightarrow> nat option \<times> nat option" where
  "built_at built_blocks b = (case built_blocks b of None \<Rightarrow> (None, None) | Some p \<Rightarrow> p)"

fun blockAddSuccessors ::
  "nat \<Rightarrow> BasicBlock list \<Rightarrow> built_blocks \<Rightarrow> nat option \<times> nat option \<Rightarrow> nat list \<Rightarrow>
   LLVMRDBuilder \<Rightarrow> error + (nat \<times> LLVMRDBuilder)" where
  "blockAddSuccessors fuel bbs built_blocks pssn [] s = Inr (0, s)"
| "blockAddSuccessors fuel bbs built_blocks pssn (S # rest) s =
     (case (case built_at built_blocks S of
              (None, None) \<Rightarrow>
                (case find (\<lambda>b. block_addr b = S) bbs of
                   None \<Rightarrow> Inl DanglingPointer
                 | Some b \<Rightarrow>
                     (case fuel of
                        0 \<Rightarrow> Inl OutOfFuel
                      | Suc fuel' \<Rightarrow>
                          blockAddSuccessors fuel' bbs built_blocks pssn (block_succs b) s))
            | (Some succ_first, Some succ_second) \<Rightarrow>
                (case snd pssn of
                   None \<Rightarrow> Inl NullDereference
                 | Some l \<Rightarrow> Inr (1, addSuccessor l succ_first s))
            | _ \<Rightarrow> Inl AssertSuccPair) of
        Inl e \<Rightarrow> Inl e
      | Inr (k, s1) \<Rightarrow>
          (case blockAddSuccessors fuel bbs built_blocks pssn rest s1 of
             Inl e \<Rightarrow> Inl e
           | Inr (num, s2) \<Rightarrow> Inr (k + num, s2)))"

subsection \<open>buildFunction\<close>

text \<open>The first loop of \<open>buildFunction\<close>: it builds the blocks and records the first
  node.\<close>

fun buildFunction_blocks ::
  "build_fun \<Rightarrow> RDInputs \<Rightarrow> BasicBlock list \<Rightarrow> built_blocks \<Rightarrow> nat option \<Rightarrow>
   LLVMRDBuilder \<Rightarrow> error + ((built_blocks \<times> nat option) \<times> LLVMRDBuilder)" where
  "buildFunction_blocks bf inp [] built_blocks first s = Inr ((built_blocks, first), s)"
| "buildFunction_blocks bf inp (block # rest) built_blocks first s =
     (case buildBlock bf inp block s of
        Inl e \<Rightarrow> Inl e
      | Inr (nds, s1) \<Rightarrow>
          (case nds of
             (Some a, Some b) \<Rightarrow>
               buildFunction_blocks bf inp rest (built_blocks(block_addr block \<mapsto> nds))
                 (if first = None then fst nds else first) s1
           | (None, None) \<Rightarrow> buildFunction_blocks bf inp rest built_blocks first s1
           | _ \<Rightarrow> Inl AssertBlockPair))"

text \<open>The second loop: it adds the successors of every built block and collects the
  last nodes of the blocks that got none.\<close>

fun buildFunction_succs ::
  "nat \<Rightarrow> BasicBlock list \<Rightarrow> built_blocks \<Rightarrow> BasicBlock list \<Rightarrow> nat list \<Rightarrow>
   LLVMRDBuilder \<Rightarrow> error + (nat list \<times> LLVMRDBuilder)" where
  "buildFunction_succs fuel bbs built_blocks [] rets s = Inr (rets, s)"
| "buildFunction_succs fuel bbs built_blocks (block # rest) rets s =
     (case built_blocks (block_addr block) of
        None \<Rightarrow> buildFunction_succs fuel bbs built_blocks rest rets s
      | Some pssn \<Rightarrow>
          (case pssn of
             (None, None) \<Rightarrow> buildFunction_succs fuel bbs built_blocks rest rets s
           | (Some a, Some l) \<Rightarrow>
               (case blockAddSuccessors fuel bbs built_blocks pssn (block_succs block) s of
                  Inl e \<Rightarrow> Inl e
                | Inr (succ_num, s1) \<Rightarrow>
                    buildFunction_succs fuel bbs built_blocks rest
                      (if succ_num = 0 then rets @ [l] else rets) s1)
           | _ \<Rightarrow> Inl AssertBlockPair))"

text \<open>
  The body of \<open>buildFunction\<close> for the function \<open>F\<close> at the address \<open>f\<close>; \<open>fuel\<close>
  bounds the depth of \<open>blockAddSuccessors\<close> and \<open>bf\<close> builds the functions called from
  the blocks.
\<close>

definition buildFunction_body ::
  "nat \<Rightarrow> build_fun \<Rightarrow> RDInputs \<Rightarrow> nat \<Rightarrow> Function \<Rightarrow> LLVMRDBuilder \<Rightarrow>
   error + (nat \<times> LLVMRDBuilder)" where
  "buildFunction_body fuel bf inp f F s =
     (let (root_node, s1) = new_RDNode s;
          (ret_node, s2) = new_RDNode s1;
          s3 = s2\<lparr>subgraphs_map :=
                 (subgraphs_map s2)(f \<mapsto> \<lparr>root = Some root_node, ret = Some ret_node\<rparr>)\<rparr>
      in case buildFunction_blocks bf inp (blocks F) Map.empty None s3 of
           Inl e \<Rightarrow> Inl e
         | Inr ((built_blocks, first), s4) \<Rightarrow>
             (case first of
                None \<Rightarrow> Inl AssertFirst
              | Some first_node \<Rightarrow>
                  (case buildFunction_succs fuel (blocks F) built_blocks (blocks F) []
                          (addSuccessor root_node first_node s4) of
                     Inl e \<Rightarrow> Inl e
                   | Inr (rets, s5) \<Rightarrow>
                       if rets = [] then Inl AssertRetsNotEmpty
                       else Inr (root_node, fold (\<lambda>r. addSuccessor r ret_node) rets s5))))"

text \<open>
  \<open>buildFunction\<close>.  A function that calls a function not yet built builds it, so the
  calls of \<open>buildFunction\<close> nest; \<open>fuel\<close> bounds the depth of the nesting, and
  \<open>OutOfFuel\<close> stands for a recursion that does not return within it.
\<close>

fun buildFunction ::
  "nat \<Rightarrow> RDInputs \<Rightarrow> nat \<Rightarrow> Function \<Rightarrow> LLVMRDBuilder \<Rightarrow> error + (nat \<times> LLVMRDBuilder)" where
  "buildFunction 0 inp f F s = Inl OutOfFuel"
| "buildFunction (Suc fuel) inp f F s =
     buildFunction_body fuel (buildFunction fuel inp) inp f F s"

subsection \<open>Notions used in the proofs\<close>

text \<open>
  A function is cached when \<open>subgraphs_map\<close> holds a subgraph with a root for it: this is
  the test \<^verbatim>\<open>if (!subg.root)\<close> of \<open>createCallToFunction\<close>.  \<open>uncached\<close> are the functions
  of the module that are not cached, and \<open>keeps_cache s s'\<close> says that \<open>s'\<close> holds for
  every function cached in \<open>s\<close> the subgraph that \<open>s\<close> holds.  \<open>bf_keeps\<close> and
  \<open>bf_returns\<close> are what the proofs assume of the parameter \<open>bf\<close>: built for a function
  that is not cached, it keeps the cache; and it returns (with a result or a failure
  other than \<open>OutOfFuel\<close>) when at most \<open>m\<close> functions are not cached.
\<close>

definition cached :: "LLVMRDBuilder \<Rightarrow> nat \<Rightarrow> bool" where
  "cached s f = (root (subgraph_at s (Some f)) \<noteq> None)"

definition uncached :: "RDInputs \<Rightarrow> LLVMRDBuilder \<Rightarrow> nat set" where
  "uncached inp s = {f \<in> fst ` set (funcs (M inp)). \<not> cached s f}"

definition keeps_cache :: "LLVMRDBuilder \<Rightarrow> LLVMRDBuilder \<Rightarrow> bool" where
  "keeps_cache s s' = (\<forall>f. cached s f \<longrightarrow> subgraphs_map s' f = subgraphs_map s f)"

definition bf_keeps :: "build_fun \<Rightarrow> bool" where
  "bf_keeps bf =
     (\<forall>f F s r s'. \<not> cached s f \<longrightarrow> bf f F s = Inr (r, s') \<longrightarrow> keeps_cache s s')"

definition bf_returns :: "RDInputs \<Rightarrow> nat \<Rightarrow> build_fun \<Rightarrow> bool" where
  "bf_returns inp m bf =
     (\<forall>f F s. f \<in> uncached inp s \<longrightarrow> card (uncached inp s) \<le> m \<longrightarrow> bf f F s \<noteq> Inl OutOfFuel)"

text \<open>An entry of \<open>built_blocks\<close> with two nodes.\<close>

definition built_pair :: "built_blocks \<Rightarrow> nat \<Rightarrow> bool" where
  "built_pair built_blocks b = (\<exists>x y. built_blocks b = Some (Some x, Some y))"

text \<open>
  The first and the last node of the pair that \<open>built_blocks\<close> holds for a block, and
  the state in which \<open>buildFunction\<close> begins to build the blocks of the function at
  \<open>f\<close>: the root and the return node are allocated and their subgraph is in
  \<open>subgraphs_map\<close>.
\<close>

definition built_first :: "built_blocks \<Rightarrow> nat \<Rightarrow> nat" where
  "built_first built_blocks b = the (fst (built_at built_blocks b))"

definition built_last :: "built_blocks \<Rightarrow> nat \<Rightarrow> nat" where
  "built_last built_blocks b = the (snd (built_at built_blocks b))"

definition function_entry :: "nat \<Rightarrow> LLVMRDBuilder \<Rightarrow> LLVMRDBuilder" where
  "function_entry f s =
     (snd (new_RDNode (snd (new_RDNode s))))
       \<lparr>subgraphs_map :=
          (subgraphs_map s)(f \<mapsto> \<lparr>root = Some (rd_next s), ret = Some (Suc (rd_next s))\<rparr>)\<rparr>"

subsection \<open>Example inputs\<close>

text \<open>
  A module and a points-to analysis on which the theorems below are instantiated.
  The function at 100 calls itself; 101 and 102 are declarations named
  \<^verbatim>\<open>malloc\<close> and \<^verbatim>\<open>realloc\<close>; the function at 103 has the blocks
  \<open>A \<rightarrow> B \<rightarrow> C\<close> at 10, 11 and 12, of which \<open>B\<close> holds one instruction that is
  none of alloca, store, return and call; the functions at 104 and 105 call each
  other.  The value 31 is an alloca.  The pointers 20, 21 and 22 are stored through,
  the pointers 23, 24 and 25 are called.
\<close>

definition example_f :: Function where
  "example_f =
     \<lparr>getName = ''f'', isIntrinsic = False,
      blocks = [\<lparr>block_addr = 13, insts = [Call 1 False (Func 100), Ret 2],
                 block_succs = []\<rparr>]\<rparr>"

definition example_g :: Function where
  "example_g =
     \<lparr>getName = ''g'', isIntrinsic = False,
      blocks = [\<lparr>block_addr = 10, insts = [Alloca 3], block_succs = [11]\<rparr>,
                \<lparr>block_addr = 11, insts = [Other 4], block_succs = [12]\<rparr>,
                \<lparr>block_addr = 12, insts = [Ret 5], block_succs = []\<rparr>]\<rparr>"

definition example_h :: Function where
  "example_h =
     \<lparr>getName = ''h'', isIntrinsic = False,
      blocks = [\<lparr>block_addr = 14, insts = [Call 6 False (Func 105), Ret 7],
                 block_succs = []\<rparr>]\<rparr>"

definition example_k :: Function where
  "example_k =
     \<lparr>getName = ''k'', isIntrinsic = False,
      blocks = [\<lparr>block_addr = 15, insts = [Call 8 False (Func 104), Ret 9],
                 block_succs = []\<rparr>]\<rparr>"

definition example_module :: Module where
  "example_module =
     \<lparr>funcs =
        [(100, example_f),
         (101, \<lparr>getName = ''malloc'', isIntrinsic = False, blocks = []\<rparr>),
         (102, \<lparr>getName = ''realloc'', isIntrinsic = False, blocks = []\<rparr>),
         (103, example_g),
         (104, example_h),
         (105, example_k)]\<rparr>"

definition example_pointsTo :: "nat \<Rightarrow> Pointer list" where
  "example_pointsTo v =
     (if v = 20 then [\<lparr>target = NULLPTR, offset = 0\<rparr>, \<lparr>target = Node 31, offset = 8\<rparr>]
      else if v = 21 then [\<lparr>target = Node 31, offset = 0\<rparr>]
      else if v = 22 then [\<lparr>target = Node 32, offset = 0\<rparr>, \<lparr>target = Node 31, offset = 0\<rparr>]
      else if v = 23 then [\<lparr>target = Node 103, offset = 0\<rparr>,
                           \<lparr>target = UNKNOWN_MEMORY, offset = UNKNOWN_OFFSET\<rparr>]
      else if v = 24 then [\<lparr>target = NULLPTR, offset = 0\<rparr>]
      else if v = 25 then [\<lparr>target = Node 103, offset = 0\<rparr>, \<lparr>target = NULLPTR, offset = 0\<rparr>]
      else [])"

definition example_userData :: "pss_target \<Rightarrow> nat option" where
  "example_userData t = (case t of Node n \<Rightarrow> Some n | _ \<Rightarrow> None)"

definition example_inputs :: RDInputs where
  "example_inputs =
     \<lparr>M = example_module,
      DL = (\<lambda>ty. if type_id ty = 1 then 4 else 0),
      PTA = \<lparr>getPointsTo = (\<lambda>v. Some \<lparr>pointsTo = example_pointsTo v\<rparr>),
              getUserData = example_userData\<rparr>\<rparr>"

text \<open>A builder that holds one node, the node 0 of the alloca 31.\<close>

definition example_builder :: LLVMRDBuilder where
  "example_builder =
     \<lparr>nodes_map = [31 \<mapsto> 0], mapping = Map.empty, subgraphs_map = Map.empty,
      rd_heap = (\<lambda>n. \<lparr>rd_successors = [], rd_defs = []\<rparr>), rd_next = 1, errs = []\<rparr>"

section \<open>Properties of PointerAnalysis.h\<close>

lemma preprocess_scc_at:
  "preprocess_scc ns h n =
     (if ntype (h n) = GEP \<and> n \<in> set ns then (h n)\<lparr>noffset := UNKNOWN_OFFSET\<rparr> else h n)"
  by (induction ns arbitrary: h) auto

lemma preprocess_sccs_at:
  "preprocess_sccs sccs h n =
     (if ntype (h n) = GEP \<and> (\<exists>scc \<in> set sccs. 1 < length scc \<and> n \<in> set scc)
      then (h n)\<lparr>noffset := UNKNOWN_OFFSET\<rparr> else h n)"
proof (induction sccs arbitrary: h)
  case Nil
  show ?case by simp
next
  case (Cons scc sccs)
  have ty: "ntype (preprocess_scc scc h n) = ntype (h n)"
    by (simp add: preprocess_scc_at)
  show ?case
  proof (cases "1 < length scc")
    case True
    then show ?thesis
      using ty by (auto simp add: Cons.IH preprocess_scc_at)
  next
    case False
    then show ?thesis
      by (auto simp add: Cons.IH)
  qed
qed

lemma distinct_add_layer: "distinct acc \<Longrightarrow> distinct (add_layer h acc)"
  by (auto simp add: add_layer_def)

lemma set_add_layer: "set acc \<subseteq> set (add_layer h acc)"
  by (auto simp add: add_layer_def)

lemma distinct_layers: "distinct acc \<Longrightarrow> distinct ((add_layer h ^^ k) acc)"
  by (induction k) (auto simp add: distinct_add_layer)

lemma set_layers: "set acc \<subseteq> set ((add_layer h ^^ k) acc)"
proof (induction k)
  case 0
  show ?case by simp
next
  case (Suc k)
  have "set ((add_layer h ^^ k) acc) \<subseteq> set (add_layer h ((add_layer h ^^ k) acc))"
    by (rule set_add_layer)
  with Suc show ?case by simp
qed

lemma distinct_getNodes: "distinct (getNodes ps start_node start_set expected_num)"
  by (auto simp add: getNodes_def distinct_layers split: option.splits)

lemma seeds_in_getNodes: "set seeds \<subseteq> set (getNodes ps None (Some seeds) expected_num)"
  using set_layers [where acc = "remdups seeds" and h = "PS_heap ps" and k = "PS_size ps"]
  by (simp add: getNodes_def)

lemma length_seeds_getNodes:
  assumes "distinct seeds"
  shows "length seeds \<le> length (getNodes ps None (Some seeds) expected_num)"
proof -
  have "card (set seeds) \<le> card (set (getNodes ps None (Some seeds) expected_num))"
    by (rule card_mono) (simp_all add: seeds_in_getNodes)
  then show ?thesis
    using assms distinct_getNodes [of ps None "Some seeds" expected_num]
    by (simp add: distinct_card)
qed

lemma process_nodes_changed:
  "\<exists>ys. changed (process_nodes b p a xs pa) = changed pa @ ys \<and> set ys \<subseteq> set xs
        \<and> (distinct xs \<longrightarrow> distinct ys)"
proof (induction xs arbitrary: pa)
  case Nil
  show ?case by simp
next
  case (Cons cur rest)
  obtain e1 ps1 where h1: "b cur (PS pa) = (e1, ps1)" by (cases "b cur (PS pa)")
  obtain e2 ps2 where h2: "p cur ps1 = (e2, ps2)" by (cases "p cur ps1")
  obtain e3 ps3 where h3: "a cur ps2 = (e3, ps3)" by (cases "a cur ps2")
  define pa2 where
    "pa2 = (if e1 \<or> e2 \<or> e3 then enqueue cur (pa\<lparr>PS := ps3\<rparr>) else pa\<lparr>PS := ps3\<rparr>)"
  have step: "process_nodes b p a (cur # rest) pa = process_nodes b p a rest pa2"
    by (simp add: h1 h2 h3 pa2_def Let_def)
  from Cons.IH [of pa2] obtain ys where
    ys: "changed (process_nodes b p a rest pa2) = changed pa2 @ ys"
        "set ys \<subseteq> set rest" "distinct rest \<longrightarrow> distinct ys"
    by blast
  show ?case
  proof (cases "e1 \<or> e2 \<or> e3")
    case True
    then have "changed pa2 = changed pa @ [cur]"
      by (simp add: pa2_def enqueue_def)
    with ys step have "changed (process_nodes b p a (cur # rest) pa) = changed pa @ (cur # ys)"
      by simp
    moreover have "set (cur # ys) \<subseteq> set (cur # rest)"
      using ys(2) by auto
    moreover have "distinct (cur # rest) \<longrightarrow> distinct (cur # ys)"
      using ys(2,3) by auto
    ultimately show ?thesis by blast
  next
    case False
    then have "changed pa2 = changed pa"
      by (simp add: pa2_def)
    with ys step have "changed (process_nodes b p a (cur # rest) pa) = changed pa @ ys"
      by simp
    moreover have "set ys \<subseteq> set (cur # rest)"
      using ys(2) by auto
    moreover have "distinct (cur # rest) \<longrightarrow> distinct ys"
      using ys(3) by auto
    ultimately show ?thesis by blast
  qed
qed

lemma run_body_asserts:
  assumes "distinct (to_process pa)"
  shows "run_body b p a pa \<noteq> Inl AssertToProcessNotEmpty"
    and "run_body b p a pa \<noteq> Inl AssertToProcessSize"
    and "run_body b p a pa = Inr pa' \<Longrightarrow> distinct (to_process pa')"
proof -
  define pa2 where "pa2 = process_nodes b p a (to_process pa) (pa\<lparr>changed := []\<rparr>)"
  from process_nodes_changed [of b p a "to_process pa" "pa\<lparr>changed := []\<rparr>"] assms
  have dc: "distinct (changed pa2)"
    by (auto simp add: pa2_def)
  define tp where
    "tp = getNodes (PS pa2) None (Some (changed pa2)) (length (to_process pa) mod 2 ^ 32)"
  have len: "length (changed pa2) \<le> length tp"
    unfolding tp_def by (rule length_seeds_getNodes [OF dc])
  have ne: "changed pa2 \<noteq> [] \<Longrightarrow> tp \<noteq> []"
    using len by auto
  have dt: "distinct tp"
    unfolding tp_def by (rule distinct_getNodes)
  have body: "run_body b p a pa =
      (if changed pa2 \<noteq> [] then
         (if tp = [] then Inl AssertToProcessNotEmpty
          else if length tp < length (changed pa2) then Inl AssertToProcessSize
          else Inr (pa2\<lparr>to_process := tp\<rparr>))
       else Inr (pa2\<lparr>to_process := []\<rparr>))"
    by (simp add: run_body_def Let_def pa2_def tp_def)
  show "run_body b p a pa \<noteq> Inl AssertToProcessNotEmpty"
    using ne len by (simp add: body)
  show "run_body b p a pa \<noteq> Inl AssertToProcessSize"
    using ne len by (simp add: body)
  show "run_body b p a pa = Inr pa' \<Longrightarrow> distinct (to_process pa')"
    using dt by (auto simp add: body split: if_splits)
qed

lemma run_loop_asserts:
  "distinct (to_process pa) \<Longrightarrow>
   run_loop fuel b p a pa \<noteq> Inl AssertToProcessNotEmpty \<and>
   run_loop fuel b p a pa \<noteq> Inl AssertToProcessSize"
proof (induction fuel arbitrary: pa)
  case 0
  show ?case by simp
next
  case (Suc fuel)
  show ?case
  proof (cases "run_body b p a pa")
    case (Inl e)
    with run_body_asserts(1,2) [OF Suc.prems, of b p a] show ?thesis
      by auto
  next
    case (Inr pa')
    with run_body_asserts(3) [OF Suc.prems, of b p a pa'] have "distinct (to_process pa')"
      by simp
    from Suc.IH [OF this] Inr show ?thesis
      by simp
  qed
qed

text \<open>
  C6.  After \<open>preprocessGEPs\<close> a node of kind GEP that lies in a component of more than
  one node has the offset \<open>UNKNOWN_OFFSET\<close> and is otherwise as before; every other
  node (of another kind, or in no component of more than one node) is unchanged.
\<close>

theorem preprocessGEPs_offsets:
  "PS_heap (PS (preprocessGEPs pa)) n =
     (if ntype (PS_heap (PS pa) n) = GEP \<and>
         (\<exists>scc \<in> set (SCCs pa). 1 < length scc \<and> n \<in> set scc)
      then (PS_heap (PS pa) n)\<lparr>noffset := UNKNOWN_OFFSET\<rparr>
      else PS_heap (PS pa) n)"
  by (simp add: preprocessGEPs_def preprocess_sccs_at)

theorem preprocessGEPs_offsets_witness:
  "PS_heap (PS (preprocessGEPs
      \<lparr>PS = \<lparr>PS_root = Some 0,
               PS_heap = (\<lambda>n. \<lparr>ntype = (if n = 1 then GEP else PHI), noffset = 4,
                                successors = [if n = 0 then 1 else 0]\<rparr>),
               PS_size = 3\<rparr>,
        SCCs = [[0, 1], [2]], max_offset = UNKNOWN_OFFSET, preprocess_geps = True,
        invalidate_nodes = False, to_process = [], changed = []\<rparr>)) 1
   = \<lparr>ntype = GEP, noffset = UNKNOWN_OFFSET, successors = [0]\<rparr>"
  using preprocessGEPs_offsets
    [of "\<lparr>PS = \<lparr>PS_root = Some 0,
               PS_heap = (\<lambda>n. \<lparr>ntype = (if n = 1 then GEP else PHI), noffset = 4,
                                successors = [if n = 0 then 1 else 0]\<rparr>),
               PS_size = 3\<rparr>,
        SCCs = [[0, 1], [2]], max_offset = UNKNOWN_OFFSET, preprocess_geps = True,
        invalidate_nodes = False, to_process = [], changed = []\<rparr>" 1]
  by simp

text \<open>
  C5.  Whatever the hooks do to the subgraph and however many passes the loop makes,
  \<open>run\<close> never fails one of the two assertions that follow the re-enumeration: in a
  pass that leaves \<open>changed\<close> non-empty, the list of nodes enumerated from
  \<open>changed\<close> is non-empty and at least as long as \<open>changed\<close>.
\<close>

theorem run_reenumeration_asserts:
  "run fuel beforeProcessed processNode afterProcessed pa \<noteq> Inl AssertToProcessNotEmpty \<and>
   run fuel beforeProcessed processNode afterProcessed pa \<noteq> Inl AssertToProcessSize"
proof (cases "PS_root (PS pa)")
  case None
  then show ?thesis by (simp add: run_def)
next
  case (Some root)
  define pa1 where "pa1 = (if preprocess_geps pa then preprocessGEPs pa else pa)"
  define pa2 where "pa2 = pa1\<lparr>to_process := getNodes (PS pa1) (Some root) None 0\<rparr>"
  have "distinct (to_process pa2)"
    by (simp add: pa2_def distinct_getNodes)
  from run_loop_asserts [OF this]
  show ?thesis
    by (simp add: run_def Some Let_def pa1_def pa2_def)
qed


section \<open>Properties of LLVMReachingDefinitions.cpp\<close>

lemmas example_defs = example_inputs_def example_module_def example_pointsTo_def
  example_userData_def example_builder_def example_f_def example_g_def example_h_def
  example_k_def

lemmas rd_defs_simps = new_RDNode_def addNode_def addSuccessor_def addDef_def createAlloc_def
  createStore_def createCall_def createCallToFunction_def subgraph_at_def getAllocatedSize_def
  isNull_def getMemAllocationFunc_def hasName_def buildBlock_def buildBlock_inst_def
  link_prev_def built_at_def buildFunction_body_def


lemma createStore_pointers_frame:
  "createStore_pointers inp ty n node ps s = Inr s' \<Longrightarrow>
   nodes_map s' = nodes_map s \<and> subgraphs_map s' = subgraphs_map s \<and> mapping s' = mapping s \<and>
   rd_next s' = rd_next s \<and> (\<forall>k. k \<noteq> node \<longrightarrow> rd_heap s' k = rd_heap s k) \<and>
   rd_successors (rd_heap s' node) = rd_successors (rd_heap s node)"
proof (induction ps arbitrary: s)
  case Nil
  then show ?case by simp
next
  case (Cons ptr rest)
  show ?case
  proof (cases "isNull ptr")
    case True
    with Cons show ?thesis by simp
  next
    case False
    note nn = this
    show ?thesis
    proof (cases "getUserData (PTA inp) (target ptr)")
      case None
      with nn Cons.prems show ?thesis by simp
    next
      case (Some v)
      show ?thesis
      proof (cases "nodes_map s v")
        case None
        with nn Some Cons.prems
        have "createStore_pointers inp ty n node rest (s\<lparr>errs := errs s @ [NoNodeForTarget v]\<rparr>) = Inr s'"
          by simp
        from Cons.IH [OF this] show ?thesis by simp
      next
        case (Some pn)
        with nn \<open>getUserData (PTA inp) (target ptr) = Some v\<close> Cons.prems
        have "createStore_pointers inp ty n node rest
                (addDef node pn (offset ptr)
                   (if getAllocatedSize ty (DL inp) = 0 then UNKNOWN_OFFSET
                    else getAllocatedSize ty (DL inp)) (n = 1) s) = Inr s'"
          by (simp add: Let_def)
        from Cons.IH [OF this] show ?thesis by (simp add: addDef_def)
      qed
    qed
  qed
qed

lemma createStore_pointers_append:
  "createStore_pointers inp ty n node (xs @ ys) s =
     (case createStore_pointers inp ty n node xs s of
        Inl e \<Rightarrow> Inl e
      | Inr s1 \<Rightarrow> createStore_pointers inp ty n node ys s1)"
  by (induction xs arbitrary: s) (auto simp add: Let_def split: option.splits)

lemma createStore_pointers_defs:
  assumes "createStore_pointers inp ty n node ps s = Inr s'"
    and "list_all P (rd_defs (rd_heap s node))"
    and "\<And>pn off. P \<lparr>ds_target = pn, ds_offset = off,
            ds_len = (if getAllocatedSize ty (DL inp) = 0 then UNKNOWN_OFFSET
                      else getAllocatedSize ty (DL inp)),
            ds_strong = (n = 1)\<rparr>"
  shows "list_all P (rd_defs (rd_heap s' node))"
  using assms(1,2)
proof (induction ps arbitrary: s)
  case Nil
  then show ?case by simp
next
  case (Cons ptr rest)
  show ?case
  proof (cases "isNull ptr")
    case True
    with Cons show ?thesis by simp
  next
    case False
    note nn = this
    show ?thesis
    proof (cases "getUserData (PTA inp) (target ptr)")
      case None
      with nn Cons.prems show ?thesis by simp
    next
      case (Some v)
      show ?thesis
      proof (cases "nodes_map s v")
        case None
        with nn Some Cons.prems
        have "createStore_pointers inp ty n node rest (s\<lparr>errs := errs s @ [NoNodeForTarget v]\<rparr>) = Inr s'"
          by simp
        from Cons.IH [OF this] Cons.prems(2) show ?thesis by simp
      next
        case (Some pn)
        define s1 where "s1 = addDef node pn (offset ptr)
                   (if getAllocatedSize ty (DL inp) = 0 then UNKNOWN_OFFSET
                    else getAllocatedSize ty (DL inp)) (n = 1) s"
        from Some nn \<open>getUserData (PTA inp) (target ptr) = Some v\<close> Cons.prems
        have run: "createStore_pointers inp ty n node rest s1 = Inr s'"
          by (simp add: Let_def s1_def)
        have "list_all P (rd_defs (rd_heap s1 node))"
          using Cons.prems(2) assms(3) by (auto simp add: s1_def addDef_def)
        from Cons.IH [OF run this] show ?thesis .
      qed
    qed
  qed
qed

lemma createStore_defs:
  assumes run: "createStore inp Inst ty op1 s = Inr (node, s')"
    and P: "\<And>pts pn off. getPointsTo (PTA inp) op1 = Some pts \<Longrightarrow>
            P \<lparr>ds_target = pn, ds_offset = off,
              ds_len = (if getAllocatedSize ty (DL inp) = 0 then UNKNOWN_OFFSET
                        else getAllocatedSize ty (DL inp)),
              ds_strong = (length (pointsTo pts) = 1)\<rparr>"
  shows "list_all P (rd_defs (rd_heap s' node))"
proof (cases "getPointsTo (PTA inp) op1")
  case None
  with run show ?thesis
    by (simp add: createStore_def new_RDNode_def)
next
  case (Some pts)
  define s2 where "s2 = addNode Inst (rd_next s) (snd (new_RDNode s))"
  from run Some have node: "node = rd_next s"
    and loop: "createStore_pointers inp ty (length (pointsTo pts)) (rd_next s) (pointsTo pts) s2 = Inr s'"
    by (auto simp add: createStore_def new_RDNode_def s2_def split: sum.splits)
  have "list_all P (rd_defs (rd_heap s2 (rd_next s)))"
    by (simp add: s2_def addNode_def new_RDNode_def)
  from createStore_pointers_defs [OF loop this, of ] P [OF Some] node show ?thesis
    by simp
qed

text \<open>
  C3.  Every def-site of the node that \<open>createStore\<close> returns has the strong-update
  flag set exactly when the points-to set of the address operand has one element; the
  null pointers of the set count, although no def-site is added for them.
\<close>

theorem createStore_strong_update:
  assumes "createStore inp Inst ty op1 s = Inr (node, s')"
    and "getPointsTo (PTA inp) op1 = Some pts"
  shows "\<forall>d \<in> set (rd_defs (rd_heap s' node)). ds_strong d = (length (pointsTo pts) = 1)"
proof -
  have "list_all (\<lambda>d. ds_strong d = (length (pointsTo pts) = 1)) (rd_defs (rd_heap s' node))"
    using assms(2) by (intro createStore_defs [OF assms(1)]) simp
  then show ?thesis
    by (simp add: list_all_iff)
qed

theorem createStore_strong_update_witness:
  "\<exists>n1 s1 n2 s2.
     createStore example_inputs 40 \<lparr>isSized = True, type_id = 1\<rparr> 20 example_builder = Inr (n1, s1) \<and>
     createStore example_inputs 40 \<lparr>isSized = True, type_id = 1\<rparr> 21 example_builder = Inr (n2, s2) \<and>
     map ds_strong (rd_defs (rd_heap s1 n1)) = [False] \<and>
     map ds_strong (rd_defs (rd_heap s2 n2)) = [True]"
proof -
  obtain n1 s1 where r1:
    "createStore example_inputs 40 \<lparr>isSized = True, type_id = 1\<rparr> 20 example_builder = Inr (n1, s1)"
    by (simp add: example_defs rd_defs_simps)
  obtain n2 s2 where r2:
    "createStore example_inputs 40 \<lparr>isSized = True, type_id = 1\<rparr> 21 example_builder = Inr (n2, s2)"
    by (simp add: example_defs rd_defs_simps)
  have p1: "getPointsTo (PTA example_inputs) 20 = Some \<lparr>pointsTo = example_pointsTo 20\<rparr>"
    and p2: "getPointsTo (PTA example_inputs) 21 = Some \<lparr>pointsTo = example_pointsTo 21\<rparr>"
    by (simp_all add: example_inputs_def)
  have l1: "length (rd_defs (rd_heap s1 n1)) = 1"
    using r1 by (auto simp add: example_defs rd_defs_simps)
  have l2: "length (rd_defs (rd_heap s2 n2)) = 1"
    using r2 by (auto simp add: example_defs rd_defs_simps)
  from createStore_strong_update [OF r1 p1] l1
  have a: "map ds_strong (rd_defs (rd_heap s1 n1)) = [False]"
    by (cases "rd_defs (rd_heap s1 n1)") (simp_all add: example_pointsTo_def)
  from createStore_strong_update [OF r2 p2] l2
  have b: "map ds_strong (rd_defs (rd_heap s2 n2)) = [True]"
    by (cases "rd_defs (rd_heap s2 n2)") (simp_all add: example_pointsTo_def)
  show ?thesis
    by (rule exI [of _ n1], rule exI [of _ s1], rule exI [of _ n2], rule exI [of _ s2])
      (intro conjI r1 r2 a b)
qed


text \<open>
  C7.  Every def-site of the node that \<open>createStore\<close> returns has the size
  \<open>UNKNOWN_OFFSET\<close> when \<open>getAllocatedSize\<close> of the type of the stored value is 0
  (as it is for a type that is not sized), and the allocation size the data layout gives
  for that type otherwise.
\<close>

theorem createStore_size:
  assumes "createStore inp Inst ty op1 s = Inr (node, s')"
  shows "\<forall>d \<in> set (rd_defs (rd_heap s' node)).
           ds_len d = (if getAllocatedSize ty (DL inp) = 0 then UNKNOWN_OFFSET else DL inp ty)"
proof -
  have "list_all (\<lambda>d. ds_len d =
            (if getAllocatedSize ty (DL inp) = 0 then UNKNOWN_OFFSET else DL inp ty))
          (rd_defs (rd_heap s' node))"
    by (intro createStore_defs [OF assms]) (simp add: getAllocatedSize_def)
  then show ?thesis
    by (simp add: list_all_iff)
qed

theorem createStore_size_witness:
  "\<exists>n1 s1 n2 s2.
     createStore example_inputs 40 \<lparr>isSized = False, type_id = 1\<rparr> 21 example_builder = Inr (n1, s1) \<and>
     createStore example_inputs 40 \<lparr>isSized = True, type_id = 1\<rparr> 21 example_builder = Inr (n2, s2) \<and>
     map ds_len (rd_defs (rd_heap s1 n1)) = [UNKNOWN_OFFSET] \<and>
     map ds_len (rd_defs (rd_heap s2 n2)) = [4]"
proof -
  obtain n1 s1 where r1:
    "createStore example_inputs 40 \<lparr>isSized = False, type_id = 1\<rparr> 21 example_builder = Inr (n1, s1)"
    by (simp add: example_defs rd_defs_simps)
  obtain n2 s2 where r2:
    "createStore example_inputs 40 \<lparr>isSized = True, type_id = 1\<rparr> 21 example_builder = Inr (n2, s2)"
    by (simp add: example_defs rd_defs_simps)
  have l1: "length (rd_defs (rd_heap s1 n1)) = 1"
    using r1 by (auto simp add: example_defs rd_defs_simps)
  have l2: "length (rd_defs (rd_heap s2 n2)) = 1"
    using r2 by (auto simp add: example_defs rd_defs_simps)
  from createStore_size [OF r1] l1
  have a: "map ds_len (rd_defs (rd_heap s1 n1)) = [UNKNOWN_OFFSET]"
    by (cases "rd_defs (rd_heap s1 n1)") (simp_all add: getAllocatedSize_def)
  from createStore_size [OF r2] l2
  have b: "map ds_len (rd_defs (rd_heap s2 n2)) = [4]"
    by (cases "rd_defs (rd_heap s2 n2)") (simp_all add: getAllocatedSize_def example_inputs_def)
  show ?thesis
    by (rule exI [of _ n1], rule exI [of _ s1], rule exI [of _ n2], rule exI [of _ s2])
      (intro conjI r1 r2 a b)
qed

lemma createStore_pointers_missing:
  assumes "\<not> isNull ptr" and "getUserData (PTA inp) (target ptr) = Some v"
    and "nodes_map s v = None"
  shows "createStore_pointers inp ty n node (before @ ptr # after) s =
     (case createStore_pointers inp ty n node before s of
        Inl e \<Rightarrow> Inl e
      | Inr s1 \<Rightarrow>
          createStore_pointers inp ty n node after (s1\<lparr>errs := errs s1 @ [NoNodeForTarget v]\<rparr>))"
proof (cases "createStore_pointers inp ty n node before s")
  case (Inl e)
  then show ?thesis
    by (simp add: createStore_pointers_append)
next
  case (Inr s1)
  from createStore_pointers_frame [OF Inr] assms(3) have "nodes_map s1 v = None"
    by simp
  with assms(1,2) Inr show ?thesis
    by (simp add: createStore_pointers_append)
qed

text \<open>
  C9.  When the points-to set of the address operand holds a pointer that is not null
  and whose target value \<open>v\<close> has no node in \<open>nodes_map\<close>, \<open>createStore\<close> does not
  stop there: with the state \<open>s1\<close> the pointers before it lead to, it appends the
  diagnostic for \<open>v\<close> to \<open>errs\<close>, leaves the nodes (and so the def-sites added so far)
  as they are in \<open>s1\<close>, and goes on with the pointers after it.
\<close>

theorem createStore_missing_node:
  assumes "getPointsTo (PTA inp) op1 = Some pts"
    and "pointsTo pts = before @ ptr # after"
    and "\<not> isNull ptr"
    and "getUserData (PTA inp) (target ptr) = Some v"
    and "v \<noteq> Inst" and "nodes_map s v = None"
  shows "createStore inp Inst ty op1 s =
     (case createStore_pointers inp ty (length (pointsTo pts)) (rd_next s) before
             (addNode Inst (rd_next s) (snd (new_RDNode s))) of
        Inl e \<Rightarrow> Inl e
      | Inr s1 \<Rightarrow>
          (case createStore_pointers inp ty (length (pointsTo pts)) (rd_next s) after
                  (s1\<lparr>errs := errs s1 @ [NoNodeForTarget v]\<rparr>) of
             Inl e \<Rightarrow> Inl e
           | Inr s2 \<Rightarrow> Inr (rd_next s, s2)))"
proof -
  have "nodes_map (addNode Inst (rd_next s) (snd (new_RDNode s))) v = None"
    using assms(5,6) by (simp add: addNode_def new_RDNode_def)
  from createStore_pointers_missing [OF assms(3,4) this, of ty "length (pointsTo pts)" "rd_next s" before after]
  show ?thesis
    using assms(1)
    by (simp add: createStore_def new_RDNode_def assms(2) [symmetric] split: sum.splits)
qed

theorem createStore_missing_node_witness:
  "\<exists>s'. createStore example_inputs 40 \<lparr>isSized = True, type_id = 1\<rparr> 22 example_builder = Inr (1, s') \<and>
     errs s' = [NoNodeForTarget 32] \<and>
     rd_defs (rd_heap s' 1) = [\<lparr>ds_target = 0, ds_offset = 0, ds_len = 4, ds_strong = False\<rparr>]"
proof -
  have "createStore example_inputs 40 \<lparr>isSized = True, type_id = 1\<rparr> 22 example_builder =
     (case createStore_pointers example_inputs \<lparr>isSized = True, type_id = 1\<rparr>
             (length (pointsTo \<lparr>pointsTo = example_pointsTo 22\<rparr>)) (rd_next example_builder) []
             (addNode 40 (rd_next example_builder) (snd (new_RDNode example_builder))) of
        Inl e \<Rightarrow> Inl e
      | Inr s1 \<Rightarrow>
          (case createStore_pointers example_inputs \<lparr>isSized = True, type_id = 1\<rparr>
                  (length (pointsTo \<lparr>pointsTo = example_pointsTo 22\<rparr>)) (rd_next example_builder)
                  [\<lparr>target = Node 31, offset = 0\<rparr>]
                  (s1\<lparr>errs := errs s1 @ [NoNodeForTarget 32]\<rparr>) of
             Inl e \<Rightarrow> Inl e
           | Inr s2 \<Rightarrow> Inr (rd_next example_builder, s2)))"
    by (rule createStore_missing_node [where ptr = "\<lparr>target = Node 32, offset = 0\<rparr>"])
      (simp_all add: example_defs isNull_def)
  then show ?thesis
    by (simp add: example_defs rd_defs_simps)
qed

text \<open>
  C10.  A call through a pointer whose points-to set has one element is
  \<open>createCallToFunction\<close> on the function of that element's target, whether the
  pointer is null or unknown or neither: the test \<^verbatim>\<open>isNull\<close> of the loop over several
  targets is not made.  In the witness the one pointer is null and the call fails on the
  null function.
\<close>

theorem createCall_single_pointer:
  assumes "getPointsTo (PTA inp) v = Some op" and "pointsTo op = [ptr]"
  shows "createCall bf inp CInst (FuncPtr v) s =
           createCallToFunction bf inp CInst (getUserData (PTA inp) (target ptr)) s"
  using assms by (simp add: createCall_def)

theorem createCall_single_pointer_witness:
  "isNull \<lparr>target = NULLPTR, offset = 0\<rparr> \<and>
   createCall (buildFunction 2 example_inputs) example_inputs 40 (FuncPtr 24) example_builder =
     createCallToFunction (buildFunction 2 example_inputs) example_inputs 40
       (getUserData (PTA example_inputs) NULLPTR) example_builder \<and>
   createCall (buildFunction 2 example_inputs) example_inputs 40 (FuncPtr 24) example_builder =
     Inl NullDereference"
proof -
  have "createCall (buildFunction 2 example_inputs) example_inputs 40 (FuncPtr 24) example_builder =
     createCallToFunction (buildFunction 2 example_inputs) example_inputs 40
       (getUserData (PTA example_inputs) (target \<lparr>target = NULLPTR, offset = 0\<rparr>)) example_builder"
    by (rule createCall_single_pointer [where op = "\<lparr>pointsTo = example_pointsTo 24\<rparr>"])
      (simp_all add: example_defs)
  then show ?thesis
    by (simp add: example_defs isNull_def createCallToFunction_def new_RDNode_def subgraph_at_def)
qed

text \<open>
  C8, as the spec states it, fails for a declaration named \<^verbatim>\<open>realloc\<close>: its body is
  empty, and \<open>getMemAllocationFunc\<close> fails its assertion before the size is looked at.
\<close>

theorem createCall_realloc_counterexample:
  "(\<exists>F. map_of (funcs (M example_inputs)) 102 = Some F \<and> blocks F = []) \<and>
   createCall (buildFunction 2 example_inputs) example_inputs 40 (Func 102) example_builder =
     Inl AssertReallocNotImplemented"
  by (simp add: example_defs createCall_def getMemAllocationFunc_def hasName_def)

text \<open>
  C8, amended.  A direct call of a function named \<^verbatim>\<open>malloc\<close>, \<^verbatim>\<open>calloc\<close> or
  \<^verbatim>\<open>alloca\<close>, or of a function with an empty body that is not named
  \<^verbatim>\<open>realloc\<close>, allocates one node \<open>n\<close>, records it in \<open>nodes_map\<close> for the call and
  returns \<open>(n, n)\<close>; \<open>subgraphs_map\<close> and everything else is left as it was.
\<close>

theorem createCall_allocation:
  assumes "map_of (funcs (M inp)) f = Some F"
    and "getName F = ''malloc'' \<or> getName F = ''calloc'' \<or> getName F = ''alloca'' \<or>
         (blocks F = [] \<and> getName F \<noteq> ''realloc'')"
  shows "createCall bf inp CInst (Func f) s =
           Inr ((rd_next s, rd_next s),
                s\<lparr>rd_heap := (rd_heap s)(rd_next s := \<lparr>rd_successors = [], rd_defs = []\<rparr>),
                  rd_next := Suc (rd_next s),
                  nodes_map := (nodes_map s)(CInst \<mapsto> rd_next s)\<rparr>)"
proof -
  from assms(2) have "\<exists>type. getMemAllocationFunc (Some F) = Inr type \<and>
      (type \<noteq> NONEMEM \<or> blocks F = [])"
    by (auto simp add: getMemAllocationFunc_def hasName_def)
  then obtain type where "getMemAllocationFunc (Some F) = Inr type"
    and "type \<noteq> NONEMEM \<or> blocks F = []"
    by blast
  with assms(1) show ?thesis
    by (auto simp add: createCall_def createAlloc_def new_RDNode_def addNode_def)
qed

theorem createCall_allocation_witness:
  "createCall (buildFunction 2 example_inputs) example_inputs 40 (Func 101) example_builder =
     Inr ((1, 1),
          example_builder\<lparr>rd_heap := (rd_heap example_builder)(1 := \<lparr>rd_successors = [], rd_defs = []\<rparr>),
                  rd_next := 2,
                  nodes_map := (nodes_map example_builder)(40 \<mapsto> 1)\<rparr>)"
  using createCall_allocation [of example_inputs 101
      "\<lparr>getName = ''malloc'', isIntrinsic = False, blocks = []\<rparr>"
      "buildFunction 2 example_inputs" 40 example_builder]
  by (simp add: example_defs)

text \<open>
  C2.  In the loop over the targets of a called pointer only null pointers are skipped:
  a pointer to unknown memory is handed to \<open>createCallToFunction\<close> like a pointer to a
  function.  In the witness the points-to set of the called value 23 holds a function and
  the unknown memory, whose node has no function, and the call fails on the null
  function.
\<close>

theorem createCall_unknown_pointer_not_skipped:
  assumes "isUnknown ptr"
  shows "createCall_pointers bf inp CInst call_funcptr ret_call (ptr # rest) s =
     (case createCallToFunction bf inp CInst (getUserData (PTA inp) UNKNOWN_MEMORY) s of
        Inl e \<Rightarrow> Inl e
      | Inr (cf, s1) \<Rightarrow>
          createCall_pointers bf inp CInst call_funcptr ret_call rest
            (addSuccessor (snd cf) ret_call (addSuccessor call_funcptr (fst cf) s1)))"
  using assms by (simp add: isUnknown_def isNull_def)

theorem createCall_unknown_pointer_not_skipped_witness:
  "isUnknown (example_pointsTo 23 ! 1) \<and>
   createCall (buildFunction 2 example_inputs) example_inputs 40 (FuncPtr 23) example_builder =
     Inl NullDereference"
proof -
  have "createCall_pointers (buildFunction 2 example_inputs) example_inputs 40 1 2
          (\<lparr>target = UNKNOWN_MEMORY, offset = UNKNOWN_OFFSET\<rparr> # []) s =
     (case createCallToFunction (buildFunction 2 example_inputs) example_inputs 40
             (getUserData (PTA example_inputs) UNKNOWN_MEMORY) s of
        Inl e \<Rightarrow> Inl e
      | Inr (cf, s1) \<Rightarrow>
          createCall_pointers (buildFunction 2 example_inputs) example_inputs 40 1 2 []
            (addSuccessor (snd cf) 2 (addSuccessor 1 (fst cf) s1)))" for s
    by (rule createCall_unknown_pointer_not_skipped) (simp add: isUnknown_def)
  then show ?thesis
    by (simp add: example_defs rd_defs_simps isUnknown_def Let_def numeral_2_eq_2)
qed

lemma link_prev_same: "link_prev node node s = Inr s"
  by (simp add: link_prev_def split: option.splits)

lemma link_prev_subgraphs_map:
  "link_prev prev_node node s = Inr s' \<Longrightarrow> subgraphs_map s' = subgraphs_map s"
  by (auto simp add: link_prev_def addSuccessor_def split: option.splits if_splits)

lemma buildBlock_inst_node:
  "buildBlock_inst bf inp Inst (Some n) s = Inr (node', s') \<Longrightarrow> node' \<noteq> None"
  by (cases Inst)
    (auto simp add: buildBlock_inst_def Let_def
      split: sum.splits prod.splits if_splits option.splits)

lemma buildBlock_insts_node:
  "buildBlock_insts bf inp is (Some n) s = Inr (node', s') \<Longrightarrow> node' \<noteq> None"
proof (induction "is" arbitrary: n s)
  case Nil
  then show ?case by auto
next
  case (Cons Inst rest)
  from Cons.prems obtain node1 s1 where
    step: "buildBlock_inst bf inp Inst (Some n) s = Inr (node1, s1)"
    and rest: "buildBlock_insts bf inp rest node1 s1 = Inr (node', s')"
    by (auto split: sum.splits)
  from buildBlock_inst_node [OF step] obtain m where "node1 = Some m"
    by auto
  with rest Cons.IH show ?case
    by blast
qed

lemma buildBlock_pair:
  assumes "buildBlock bf inp block s = Inr ((first_node, last_node), s')"
  shows "first_node = Some (rd_next s) \<and> last_node \<noteq> None"
proof -
  from assms obtain s1 where
    "buildBlock_insts bf inp (insts block) (Some (rd_next s)) s1 = Inr (last_node, s')"
    and "first_node = Some (rd_next s)"
    by (auto simp add: buildBlock_def new_RDNode_def split: sum.splits)
  with buildBlock_insts_node show ?thesis
    by blast
qed

lemma buildBlock_inst_no_node:
  "emits_no_node Inst \<Longrightarrow>
   buildBlock_inst bf inp Inst (Some n) s =
     Inr (Some n, s\<lparr>mapping := (mapping s)(inst_addr Inst \<mapsto> n)\<rparr>)"
  by (cases Inst) (simp_all add: buildBlock_inst_def link_prev_same)

lemma buildBlock_insts_no_node:
  "list_all emits_no_node is \<Longrightarrow>
   buildBlock_insts bf inp is (Some n) s =
     Inr (Some n, fold (\<lambda>i t. t\<lparr>mapping := (mapping t)(inst_addr i \<mapsto> n)\<rparr>) is s)"
  by (induction "is" arbitrary: s) (simp_all add: buildBlock_inst_no_node)

lemma buildFunction_blocks_built:
  "buildFunction_blocks bf inp bs built first_node s = Inr ((built', first'), s') \<Longrightarrow>
   (\<forall>a. built_pair built a \<longrightarrow> built_pair built' a) \<and>
   (\<forall>b \<in> set bs. built_pair built' (block_addr b))"
proof (induction bs arbitrary: built first_node s)
  case Nil
  then show ?case by simp
next
  case (Cons block rest)
  from Cons.prems obtain nds s1 where step: "buildBlock bf inp block s = Inr (nds, s1)"
    by (auto split: sum.splits)
  obtain x y where nds: "nds = (Some x, Some y)"
    using buildBlock_pair [of bf inp block s "fst nds" "snd nds" s1] step
    by (cases nds) auto
  define built1 where "built1 = built(block_addr block \<mapsto> nds)"
  from Cons.prems step nds have
    rest: "buildFunction_blocks bf inp rest built1 (if first_node = None then fst nds else first_node) s1
             = Inr ((built', first'), s')"
    by (cases "first_node = None") (auto simp add: built1_def)
  from Cons.IH [OF rest] have
    keep: "\<forall>a. built_pair built1 a \<longrightarrow> built_pair built' a"
    and new: "\<forall>b \<in> set rest. built_pair built' (block_addr b)"
    by blast+
  have one: "built_pair built1 (block_addr block)"
    by (simp add: built1_def built_pair_def nds)
  have old: "built_pair built a \<Longrightarrow> built_pair built1 a" for a
    by (simp add: built1_def built_pair_def nds)
  from keep new one old show ?case
    by auto
qed

lemma blockAddSuccessors_all:
  "list_all (\<lambda>S. fst (built_at built S) \<noteq> None \<and> snd (built_at built S) \<noteq> None) succs \<Longrightarrow>
   blockAddSuccessors fuel bbs built (pssn_first, Some l) succs t =
     Inr (length succs, fold (\<lambda>S. addSuccessor l (built_first built S)) succs t)"
proof (induction succs arbitrary: t)
  case Nil
  show ?case by simp
next
  case (Cons S rest)
  from Cons.prems obtain x y where S: "built_at built S = (Some x, Some y)"
    by (cases "built_at built S") auto
  from Cons.prems have
    "list_all (\<lambda>S. fst (built_at built S) \<noteq> None \<and> snd (built_at built S) \<noteq> None) rest"
    by simp
  from Cons.IH [OF this, of "addSuccessor l x t"] S show ?case
    by (simp add: built_first_def)
qed

lemma buildFunction_succs_all:
  assumes "list_all (\<lambda>b. fst (built_at built (block_addr b)) \<noteq> None \<and>
                       snd (built_at built (block_addr b)) \<noteq> None) bs"
    and "list_all (\<lambda>b. list_all (\<lambda>S. fst (built_at built S) \<noteq> None \<and>
                                      snd (built_at built S) \<noteq> None) (block_succs b)) bs"
  shows "buildFunction_succs fuel bbs built bs rets t =
     Inr (rets @ map (\<lambda>b. built_last built (block_addr b)) (filter (\<lambda>b. block_succs b = []) bs),
          fold (\<lambda>b. fold (\<lambda>S. addSuccessor (built_last built (block_addr b)) (built_first built S))
                      (block_succs b)) bs t)"
  using assms
proof (induction bs arbitrary: rets t)
  case Nil
  show ?case by simp
next
  case (Cons b rest)
  from Cons.prems(1) obtain a l where b: "built (block_addr b) = Some (Some a, Some l)"
    by (cases "built (block_addr b)") (auto simp add: built_at_def)
  then have last: "built_last built (block_addr b) = l"
    by (simp add: built_last_def built_at_def)
  from Cons.prems(2) have
    "list_all (\<lambda>S. fst (built_at built S) \<noteq> None \<and> snd (built_at built S) \<noteq> None) (block_succs b)"
    by simp
  from blockAddSuccessors_all [OF this, of fuel bbs "Some a" l t]
  have add: "blockAddSuccessors fuel bbs built (Some a, Some l) (block_succs b) t =
     Inr (length (block_succs b), fold (\<lambda>S. addSuccessor l (built_first built S)) (block_succs b) t)" .
  from Cons.prems have rest:
    "list_all (\<lambda>b. fst (built_at built (block_addr b)) \<noteq> None \<and>
                       snd (built_at built (block_addr b)) \<noteq> None) rest"
    "list_all (\<lambda>b. list_all (\<lambda>S. fst (built_at built S) \<noteq> None \<and>
                                      snd (built_at built S) \<noteq> None) (block_succs b)) rest"
    by simp_all
  show ?case
    by (simp add: b add last Cons.IH [OF rest])
qed

lemma buildFunction_body_eq:
  "buildFunction_body fuel bf inp f F s =
     (case buildFunction_blocks bf inp (blocks F) Map.empty None (function_entry f s) of
        Inl e \<Rightarrow> Inl e
      | Inr ((built_blocks, first), s4) \<Rightarrow>
          (case first of
             None \<Rightarrow> Inl AssertFirst
           | Some first_node \<Rightarrow>
               (case buildFunction_succs fuel (blocks F) built_blocks (blocks F) []
                       (addSuccessor (rd_next s) first_node s4) of
                  Inl e \<Rightarrow> Inl e
                | Inr (rets, s5) \<Rightarrow>
                    if rets = [] then Inl AssertRetsNotEmpty
                    else Inr (rd_next s, fold (\<lambda>r. addSuccessor r (Suc (rd_next s))) rets s5))))"
  by (simp add: buildFunction_body_def new_RDNode_def function_entry_def Let_def
      split: sum.splits option.splits prod.splits)

lemma buildFunction_body_stitched:
  assumes run: "buildFunction_body fuel bf inp f F s = Inr (r, s')"
    and wf: "list_all (\<lambda>b. list_all (\<lambda>S. S \<in> block_addr ` set (blocks F)) (block_succs b)) (blocks F)"
  shows "\<exists>built first_node s4.
     buildFunction_blocks bf inp (blocks F) Map.empty None (function_entry f s) =
       Inr ((built, Some first_node), s4) \<and>
     s' = fold (\<lambda>l. addSuccessor l (Suc (rd_next s)))
            (map (\<lambda>b. built_last built (block_addr b)) (filter (\<lambda>b. block_succs b = []) (blocks F)))
            (fold (\<lambda>b. fold (\<lambda>S. addSuccessor (built_last built (block_addr b)) (built_first built S))
                        (block_succs b)) (blocks F) (addSuccessor (rd_next s) first_node s4))"
proof -
  obtain res where blocks0:
    "buildFunction_blocks bf inp (blocks F) Map.empty None (function_entry f s) = Inr res"
    using run unfolding buildFunction_body_eq
    by (cases "buildFunction_blocks bf inp (blocks F) Map.empty None (function_entry f s)") simp_all
  obtain built first s4 where res: "res = ((built, first), s4)"
    by (cases res) auto
  obtain first_node where first: "first = Some first_node"
    using run unfolding buildFunction_body_eq by (cases first) (simp_all add: blocks0 res)
  note blocks = blocks0 [unfolded res first]
  from buildFunction_blocks_built [OF blocks]
  have pairs: "\<forall>b \<in> set (blocks F). built_pair built (block_addr b)"
    by blast
  then have all: "list_all (\<lambda>b. fst (built_at built (block_addr b)) \<noteq> None \<and>
                       snd (built_at built (block_addr b)) \<noteq> None) (blocks F)"
    by (auto simp add: list_all_iff built_pair_def built_at_def)
  have pair: "fst (built_at built S) \<noteq> None \<and> snd (built_at built S) \<noteq> None"
    if "S \<in> block_addr ` set (blocks F)" for S
  proof -
    from that obtain b where "b \<in> set (blocks F)" and "S = block_addr b"
      by blast
    with pairs have "built_pair built S"
      by simp
    then show ?thesis
      by (auto simp add: built_pair_def built_at_def)
  qed
  have succs: "list_all (\<lambda>b. list_all (\<lambda>S. fst (built_at built S) \<noteq> None \<and>
                                      snd (built_at built S) \<noteq> None) (block_succs b)) (blocks F)"
    unfolding list_all_iff
  proof (intro ballI)
    fix b S
    assume "b \<in> set (blocks F)" and "S \<in> set (block_succs b)"
    with wf have "S \<in> block_addr ` set (blocks F)"
      by (simp add: list_all_iff)
    then show "fst (built_at built S) \<noteq> None \<and> snd (built_at built S) \<noteq> None"
      by (rule pair)
  qed
  note stitch = buildFunction_succs_all [OF all succs, of fuel "blocks F" "[]"
      "addSuccessor (rd_next s) first_node s4"]
  from run have "s' = fold (\<lambda>l. addSuccessor l (Suc (rd_next s)))
            (map (\<lambda>b. built_last built (block_addr b)) (filter (\<lambda>b. block_succs b = []) (blocks F)))
            (fold (\<lambda>b. fold (\<lambda>S. addSuccessor (built_last built (block_addr b)) (built_first built S))
                        (block_succs b)) (blocks F) (addSuccessor (rd_next s) first_node s4))"
    unfolding buildFunction_body_eq by (auto simp add: blocks stitch split: if_splits)
  with blocks show ?thesis
    by blast
qed

lemma buildFunction_three_blocks:
  assumes F: "blocks F = [A, B, C]"
    and dist: "distinct [block_addr A, block_addr B, block_addr C]"
    and sA: "block_succs A = [block_addr B]"
    and sB: "block_succs B = [block_addr C]"
    and sC: "block_succs C = []"
    and nn: "list_all emits_no_node (insts B)"
    and run: "buildFunction_body fuel bf inp f F s = Inr (r, s')"
  shows "\<exists>fA lA tA tB lC tC.
     buildBlock bf inp A (function_entry f s) = Inr ((Some fA, Some lA), tA) \<and>
     buildBlock bf inp B tA = Inr ((Some (rd_next tA), Some (rd_next tA)), tB) \<and>
     buildBlock bf inp C tB = Inr ((Some (rd_next tB), Some lC), tC) \<and>
     s' = addSuccessor lC (Suc (rd_next s))
            (addSuccessor (rd_next tA) (rd_next tB)
               (addSuccessor lA (rd_next tA) (addSuccessor (rd_next s) fA tC)))"
proof -
  have wf: "list_all (\<lambda>b. list_all (\<lambda>S. S \<in> block_addr ` set (blocks F)) (block_succs b)) (blocks F)"
    by (simp add: F sA sB sC)
  from buildFunction_body_stitched [OF run wf] obtain built first_node s4 where
    blocks: "buildFunction_blocks bf inp [A, B, C] Map.empty None (function_entry f s) =
               Inr ((built, Some first_node), s4)"
    and fin: "s' = fold (\<lambda>l. addSuccessor l (Suc (rd_next s)))
            (map (\<lambda>b. built_last built (block_addr b)) (filter (\<lambda>b. block_succs b = []) [A, B, C]))
            (fold (\<lambda>b. fold (\<lambda>S. addSuccessor (built_last built (block_addr b)) (built_first built S))
                        (block_succs b)) [A, B, C] (addSuccessor (rd_next s) first_node s4))"
    unfolding F by blast
  obtain resA where rA0: "buildBlock bf inp A (function_entry f s) = Inr resA"
    using blocks by (cases "buildBlock bf inp A (function_entry f s)") simp_all
  obtain ndsA tA where "resA = (ndsA, tA)"
    by (cases resA)
  with rA0 buildBlock_pair [of bf inp A "function_entry f s" "fst ndsA" "snd ndsA" tA]
  obtain fA lA where rA: "buildBlock bf inp A (function_entry f s) = Inr ((Some fA, Some lA), tA)"
    by (cases ndsA) auto
  from nn have rB: "buildBlock bf inp B tA =
      Inr ((Some (rd_next tA), Some (rd_next tA)),
           fold (\<lambda>i t. t\<lparr>mapping := (mapping t)(inst_addr i \<mapsto> rd_next tA)\<rparr>)
             (insts B) (snd (new_RDNode tA)))"
    by (simp add: buildBlock_def buildBlock_insts_no_node new_RDNode_def)
  define tB where "tB = fold (\<lambda>i t. t\<lparr>mapping := (mapping t)(inst_addr i \<mapsto> rd_next tA)\<rparr>)
             (insts B) (snd (new_RDNode tA))"
  obtain resC where rC0: "buildBlock bf inp C tB = Inr resC"
    using blocks rA rB unfolding tB_def by (cases "buildBlock bf inp C
      (fold (\<lambda>i t. t\<lparr>mapping := (mapping t)(inst_addr i \<mapsto> rd_next tA)\<rparr>)
             (insts B) (snd (new_RDNode tA)))") simp_all
  obtain ndsC tC where "resC = (ndsC, tC)"
    by (cases resC)
  with rC0 buildBlock_pair [of bf inp C tB "fst ndsC" "snd ndsC" tC]
  obtain lC where rC: "buildBlock bf inp C tB = Inr ((Some (rd_next tB), Some lC), tC)"
    by (cases ndsC) auto
  from blocks rA rB [folded tB_def] rC have
    built: "built = [block_addr A \<mapsto> (Some fA, Some lA),
                     block_addr B \<mapsto> (Some (rd_next tA), Some (rd_next tA)),
                     block_addr C \<mapsto> (Some (rd_next tB), Some lC)]"
    and first: "first_node = fA" and s4: "s4 = tC"
    by auto
  from dist have look:
    "built_last built (block_addr A) = lA" "built_last built (block_addr B) = rd_next tA"
    "built_last built (block_addr C) = lC" "built_first built (block_addr B) = rd_next tA"
    "built_first built (block_addr C) = rd_next tB"
    by (auto simp add: built built_last_def built_first_def built_at_def)
  from fin have "s' = addSuccessor lC (Suc (rd_next s))
            (addSuccessor (rd_next tA) (rd_next tB)
               (addSuccessor lA (rd_next tA) (addSuccessor (rd_next s) fA tC)))"
    by (simp add: sA sB sC look first s4)
  with rA rB [folded tB_def] rC show ?thesis
    by blast
qed

text \<open>
  C1, as the spec states it, fails: \<open>buildBlock\<close> begins with a node of its own, so the
  block \<open>B\<close> of the function at 103, whose one instruction creates no node, exports this
  node twice and not two null pointers; in the graph of the function the last node 4 of
  \<open>A\<close> has the node 5 of \<open>B\<close> as its only successor, which in turn has the first node
  6 of \<open>C\<close> as its successor, and the instruction of \<open>B\<close> is mapped to the node 5.
\<close>

theorem buildBlock_null_pair_counterexample:
  "list_all emits_no_node (insts \<lparr>block_addr = 11, insts = [Other 4], block_succs = [12]\<rparr>) \<and>
   map_sum id fst
     (buildBlock (buildFunction 0 example_inputs) example_inputs
        \<lparr>block_addr = 11, insts = [Other 4], block_succs = [12]\<rparr> example_builder) =
     Inr (Some 1, Some 1) \<and>
   map_sum id (\<lambda>(r, s'). (rd_successors (rd_heap s' 4), rd_successors (rd_heap s' 5),
                          mapping s' 4, rd_next s'))
     (buildFunction 1 example_inputs 103 example_g example_builder) =
     Inr ([5], [6], Some 5, 8)"
  by (simp add: example_defs rd_defs_simps Let_def)

text \<open>
  C1, amended.  \<open>buildBlock\<close> always exports a pair of two nodes, the first of which is
  the node it allocates at its start; for a block none of whose instructions creates a
  node it exports this node twice, and only \<open>mapping\<close> changes besides.  The first loop
  of \<open>buildFunction\<close> therefore records a pair of two nodes for every block.  For
  successors that all have such a pair, \<open>blockAddSuccessors\<close> adds, for every one of them
  in turn, the edge from the last node of the block to the first node of the successor,
  and counts them all.  So \<open>buildFunction\<close>, for a function whose blocks have their
  successors among its blocks, ends in the state its first loop leaves, with the edge
  from the root to the first node, the edge from the last node of every block to the
  first node of every successor of it, and the edge from the last node of every block
  without successors to the return node: no block is bypassed.  In \<open>A \<rightarrow> B \<rightarrow> C\<close>,
  whatever the instructions of \<open>A\<close> and \<open>C\<close> are, a block \<open>B\<close> that creates no node has
  its node \<open>d\<close>, and the edges added are those from the root to the first node of \<open>A\<close>,
  from the last node of \<open>A\<close> to \<open>d\<close>, from \<open>d\<close> to the first node of \<open>C\<close> and from
  the last node of \<open>C\<close> to the return node.
\<close>

theorem buildBlock_exports_dummy_node:
  "(buildBlock bf inp block s = Inr ((first_node, last_node), s') \<longrightarrow>
      first_node = Some (rd_next s) \<and> last_node \<noteq> None) \<and>
   (list_all emits_no_node (insts block) \<longrightarrow>
      buildBlock bf inp block s =
        Inr ((Some (rd_next s), Some (rd_next s)),
             fold (\<lambda>i t. t\<lparr>mapping := (mapping t)(inst_addr i \<mapsto> rd_next s)\<rparr>)
               (insts block) (snd (new_RDNode s)))) \<and>
   (buildFunction_blocks bf inp bs built_blocks first_block u = Inr ((built', first'), u') \<longrightarrow>
      list_all (\<lambda>b. fst (built_at built' (block_addr b)) \<noteq> None \<and>
                     snd (built_at built' (block_addr b)) \<noteq> None) bs) \<and>
   (list_all (\<lambda>S. fst (built_at built' S) \<noteq> None \<and> snd (built_at built' S) \<noteq> None) succs \<longrightarrow>
      blockAddSuccessors fuel bbs built' (pssn_first, Some l) succs t =
        Inr (length succs, fold (\<lambda>S. addSuccessor l (built_first built' S)) succs t)) \<and>
   (buildFunction (Suc n) inp f F v = Inr (r, v') \<and>
    list_all (\<lambda>b. list_all (\<lambda>S. S \<in> block_addr ` set (blocks F)) (block_succs b)) (blocks F) \<longrightarrow>
      (\<exists>built first_of_F w.
         buildFunction_blocks (buildFunction n inp) inp (blocks F) Map.empty None
           (function_entry f v) = Inr ((built, Some first_of_F), w) \<and>
         v' = fold (\<lambda>l. addSuccessor l (Suc (rd_next v)))
                (map (\<lambda>b. built_last built (block_addr b))
                   (filter (\<lambda>b. block_succs b = []) (blocks F)))
                (fold (\<lambda>b. fold (\<lambda>S. addSuccessor (built_last built (block_addr b))
                                       (built_first built S)) (block_succs b))
                   (blocks F) (addSuccessor (rd_next v) first_of_F w)))) \<and>
   (buildFunction (Suc n) inp f F v = Inr (r, v') \<and>
    blocks F = [A, B, C] \<and> distinct [block_addr A, block_addr B, block_addr C] \<and>
    block_succs A = [block_addr B] \<and> block_succs B = [block_addr C] \<and> block_succs C = [] \<and>
    list_all emits_no_node (insts B) \<longrightarrow>
      (\<exists>first_of_A last_of_A tA tB last_of_C tC.
         buildBlock (buildFunction n inp) inp A (function_entry f v) =
           Inr ((Some first_of_A, Some last_of_A), tA) \<and>
         buildBlock (buildFunction n inp) inp B tA =
           Inr ((Some (rd_next tA), Some (rd_next tA)), tB) \<and>
         buildBlock (buildFunction n inp) inp C tB =
           Inr ((Some (rd_next tB), Some last_of_C), tC) \<and>
         v' = addSuccessor last_of_C (Suc (rd_next v))
                (addSuccessor (rd_next tA) (rd_next tB)
                   (addSuccessor last_of_A (rd_next tA)
                      (addSuccessor (rd_next v) first_of_A tC)))))"
proof (intro conjI impI)
  assume "buildBlock bf inp block s = Inr ((first_node, last_node), s')"
  then show "first_node = Some (rd_next s)" and "last_node \<noteq> None"
    using buildBlock_pair by blast+
next
  assume "list_all emits_no_node (insts block)"
  then show "buildBlock bf inp block s =
        Inr ((Some (rd_next s), Some (rd_next s)),
             fold (\<lambda>i t. t\<lparr>mapping := (mapping t)(inst_addr i \<mapsto> rd_next s)\<rparr>)
               (insts block) (snd (new_RDNode s)))"
    by (simp add: buildBlock_def buildBlock_insts_no_node new_RDNode_def)
next
  assume "buildFunction_blocks bf inp bs built_blocks first_block u = Inr ((built', first'), u')"
  from buildFunction_blocks_built [OF this]
  have "\<forall>b \<in> set bs. built_pair built' (block_addr b)"
    by blast
  then show "list_all (\<lambda>b. fst (built_at built' (block_addr b)) \<noteq> None \<and>
                     snd (built_at built' (block_addr b)) \<noteq> None) bs"
    by (auto simp add: list_all_iff built_pair_def built_at_def)
next
  assume "list_all (\<lambda>S. fst (built_at built' S) \<noteq> None \<and> snd (built_at built' S) \<noteq> None) succs"
  then show "blockAddSuccessors fuel bbs built' (pssn_first, Some l) succs t =
        Inr (length succs, fold (\<lambda>S. addSuccessor l (built_first built' S)) succs t)"
    by (rule blockAddSuccessors_all)
next
  assume a: "buildFunction (Suc n) inp f F v = Inr (r, v') \<and>
    list_all (\<lambda>b. list_all (\<lambda>S. S \<in> block_addr ` set (blocks F)) (block_succs b)) (blocks F)"
  then have "buildFunction_body n (buildFunction n inp) inp f F v = Inr (r, v')"
    by simp
  from buildFunction_body_stitched [OF this] a
  show "\<exists>built first_of_F w.
         buildFunction_blocks (buildFunction n inp) inp (blocks F) Map.empty None
           (function_entry f v) = Inr ((built, Some first_of_F), w) \<and>
         v' = fold (\<lambda>l. addSuccessor l (Suc (rd_next v)))
                (map (\<lambda>b. built_last built (block_addr b))
                   (filter (\<lambda>b. block_succs b = []) (blocks F)))
                (fold (\<lambda>b. fold (\<lambda>S. addSuccessor (built_last built (block_addr b))
                                       (built_first built S)) (block_succs b))
                   (blocks F) (addSuccessor (rd_next v) first_of_F w))"
    by blast
next
  assume a: "buildFunction (Suc n) inp f F v = Inr (r, v') \<and>
    blocks F = [A, B, C] \<and> distinct [block_addr A, block_addr B, block_addr C] \<and>
    block_succs A = [block_addr B] \<and> block_succs B = [block_addr C] \<and> block_succs C = [] \<and>
    list_all emits_no_node (insts B)"
  then have run: "buildFunction_body n (buildFunction n inp) inp f F v = Inr (r, v')"
    by simp
  from a have F: "blocks F = [A, B, C]"
    and dist: "distinct [block_addr A, block_addr B, block_addr C]"
    and succs: "block_succs A = [block_addr B]" "block_succs B = [block_addr C]"
      "block_succs C = []"
    and nn: "list_all emits_no_node (insts B)"
    by blast+
  show "\<exists>first_of_A last_of_A tA tB last_of_C tC.
         buildBlock (buildFunction n inp) inp A (function_entry f v) =
           Inr ((Some first_of_A, Some last_of_A), tA) \<and>
         buildBlock (buildFunction n inp) inp B tA =
           Inr ((Some (rd_next tA), Some (rd_next tA)), tB) \<and>
         buildBlock (buildFunction n inp) inp C tB =
           Inr ((Some (rd_next tB), Some last_of_C), tC) \<and>
         v' = addSuccessor last_of_C (Suc (rd_next v))
                (addSuccessor (rd_next tA) (rd_next tB)
                   (addSuccessor last_of_A (rd_next tA)
                      (addSuccessor (rd_next v) first_of_A tC)))"
    by (rule buildFunction_three_blocks [OF F dist succs nn run])
qed

theorem buildBlock_exports_dummy_node_witness:
  "list_all emits_no_node (insts \<lparr>block_addr = 11, insts = [Other 4], block_succs = [12]\<rparr>) \<and>
   map_sum id fst
     (buildBlock (buildFunction 0 example_inputs) example_inputs
        \<lparr>block_addr = 11, insts = [Other 4], block_succs = [12]\<rparr> example_builder) =
     Inr (Some 1, Some 1) \<and>
   (\<exists>built' first' u'.
      buildFunction_blocks (buildFunction 0 example_inputs) example_inputs (blocks example_g)
        Map.empty None example_builder = Inr ((built', first'), u') \<and>
      list_all (\<lambda>b. fst (built_at built' (block_addr b)) \<noteq> None \<and>
                     snd (built_at built' (block_addr b)) \<noteq> None) (blocks example_g) \<and>
      built_first built' 11 = 3 \<and> built_first built' 12 = 4 \<and>
      blockAddSuccessors 0 (blocks example_g) built' (Some 1, Some 2) [11, 12] u' =
        Inr (2, addSuccessor 2 4 (addSuccessor 2 3 u'))) \<and>
   (\<exists>r v'.
      buildFunction (Suc 0) example_inputs 103 example_g example_builder = Inr (r, v') \<and>
      map (\<lambda>k. rd_successors (rd_heap v' k)) [1, 2, 3, 4, 5, 6, 7] =
        [[3], [], [4], [5], [6], [7], [2]] \<and>
      (\<exists>built first_of_F w.
         buildFunction_blocks (buildFunction 0 example_inputs) example_inputs (blocks example_g)
           Map.empty None (function_entry 103 example_builder) = Inr ((built, Some first_of_F), w) \<and>
         v' = fold (\<lambda>l. addSuccessor l (Suc (rd_next example_builder)))
                (map (\<lambda>b. built_last built (block_addr b))
                   (filter (\<lambda>b. block_succs b = []) (blocks example_g)))
                (fold (\<lambda>b. fold (\<lambda>S. addSuccessor (built_last built (block_addr b))
                                       (built_first built S)) (block_succs b))
                   (blocks example_g)
                   (addSuccessor (rd_next example_builder) first_of_F w))) \<and>
      (\<exists>first_of_A last_of_A tA tB last_of_C tC.
         buildBlock (buildFunction 0 example_inputs) example_inputs
           \<lparr>block_addr = 10, insts = [Alloca 3], block_succs = [11]\<rparr>
           (function_entry 103 example_builder) = Inr ((Some first_of_A, Some last_of_A), tA) \<and>
         buildBlock (buildFunction 0 example_inputs) example_inputs
           \<lparr>block_addr = 11, insts = [Other 4], block_succs = [12]\<rparr> tA =
           Inr ((Some (rd_next tA), Some (rd_next tA)), tB) \<and>
         buildBlock (buildFunction 0 example_inputs) example_inputs
           \<lparr>block_addr = 12, insts = [Ret 5], block_succs = []\<rparr> tB =
           Inr ((Some (rd_next tB), Some last_of_C), tC) \<and>
         v' = addSuccessor last_of_C (Suc (rd_next example_builder))
                (addSuccessor (rd_next tA) (rd_next tB)
                   (addSuccessor last_of_A (rd_next tA)
                      (addSuccessor (rd_next example_builder) first_of_A tC)))))"
proof -
  have no_node:
    "list_all emits_no_node (insts \<lparr>block_addr = 11, insts = [Other 4], block_succs = [12]\<rparr>)"
    by simp
  obtain built' first' u' where blocks:
    "buildFunction_blocks (buildFunction 0 example_inputs) example_inputs (blocks example_g)
       Map.empty None example_builder = Inr ((built', first'), u')"
    and firsts: "built_first built' 11 = 3" "built_first built' 12 = 4"
    by (simp add: example_defs rd_defs_simps built_first_def Let_def)
  obtain r v' where run:
    "buildFunction (Suc 0) example_inputs 103 example_g example_builder = Inr (r, v')"
    and edges: "map (\<lambda>k. rd_successors (rd_heap v' k)) [1, 2, 3, 4, 5, 6, 7] =
        [[3], [], [4], [5], [6], [7], [2]]"
    by (simp add: example_defs rd_defs_simps Let_def)
  note inst = buildBlock_exports_dummy_node
    [where bf = "buildFunction 0 example_inputs" and inp = example_inputs
       and block = "\<lparr>block_addr = 11, insts = [Other 4], block_succs = [12]\<rparr>"
       and s = example_builder and first_node = "Some 1" and last_node = "Some 1"
       and s' = example_builder
       and bs = "blocks example_g" and built_blocks = Map.empty and first_block = None
       and u = example_builder and built' = built' and first' = first' and u' = u'
       and succs = "[11, 12]" and fuel = 0
       and bbs = "blocks example_g" and pssn_first = "Some 1" and l = 2 and t = u'
       and n = 0 and f = 103 and F = example_g and v = example_builder and r = r and v' = v'
       and A = "\<lparr>block_addr = 10, insts = [Alloca 3], block_succs = [11]\<rparr>"
       and B = "\<lparr>block_addr = 11, insts = [Other 4], block_succs = [12]\<rparr>"
       and C = "\<lparr>block_addr = 12, insts = [Ret 5], block_succs = []\<rparr>"]
  have "buildBlock (buildFunction 0 example_inputs) example_inputs
          \<lparr>block_addr = 11, insts = [Other 4], block_succs = [12]\<rparr> example_builder =
        Inr ((Some (rd_next example_builder), Some (rd_next example_builder)),
             fold (\<lambda>i t. t\<lparr>mapping := (mapping t)(inst_addr i \<mapsto> rd_next example_builder)\<rparr>)
               (insts \<lparr>block_addr = 11, insts = [Other 4], block_succs = [12]\<rparr>)
               (snd (new_RDNode example_builder)))"
    by (rule inst [THEN conjunct2, THEN conjunct1, THEN mp, OF no_node])
  then have pair: "map_sum id fst
     (buildBlock (buildFunction 0 example_inputs) example_inputs
        \<lparr>block_addr = 11, insts = [Other 4], block_succs = [12]\<rparr> example_builder) =
     Inr (Some 1, Some 1)"
    by (simp add: example_builder_def)
  have all: "list_all (\<lambda>b. fst (built_at built' (block_addr b)) \<noteq> None \<and>
                     snd (built_at built' (block_addr b)) \<noteq> None) (blocks example_g)"
    by (rule inst [THEN conjunct2, THEN conjunct2, THEN conjunct1, THEN mp, OF blocks])
  then have two:
    "list_all (\<lambda>S. fst (built_at built' S) \<noteq> None \<and> snd (built_at built' S) \<noteq> None) [11, 12]"
    by (simp add: example_g_def)
  have "blockAddSuccessors 0 (blocks example_g) built' (Some 1, Some 2) [11, 12] u' =
        Inr (length [11, 12 :: nat], fold (\<lambda>S. addSuccessor 2 (built_first built' S)) [11, 12] u')"
    by (rule inst [THEN conjunct2, THEN conjunct2, THEN conjunct2, THEN conjunct1, THEN mp, OF two])
  then have stitch: "blockAddSuccessors 0 (blocks example_g) built' (Some 1, Some 2) [11, 12] u' =
        Inr (2, addSuccessor 2 4 (addSuccessor 2 3 u'))"
    by (simp add: firsts)
  have wf: "list_all (\<lambda>b. list_all (\<lambda>S. S \<in> block_addr ` set (blocks example_g)) (block_succs b))
              (blocks example_g)"
    by (simp add: example_g_def)
  note general = inst [THEN conjunct2, THEN conjunct2, THEN conjunct2, THEN conjunct2,
      THEN conjunct1, THEN mp, OF conjI [OF run wf]]
  have shape: "blocks example_g =
      [\<lparr>block_addr = 10, insts = [Alloca 3], block_succs = [11]\<rparr>,
       \<lparr>block_addr = 11, insts = [Other 4], block_succs = [12]\<rparr>,
       \<lparr>block_addr = 12, insts = [Ret 5], block_succs = []\<rparr>] \<and>
     distinct [block_addr \<lparr>block_addr = 10, insts = [Alloca 3], block_succs = [11]\<rparr>,
               block_addr \<lparr>block_addr = 11, insts = [Other 4], block_succs = [12]\<rparr>,
               block_addr \<lparr>block_addr = 12, insts = [Ret 5], block_succs = []\<rparr>] \<and>
     block_succs \<lparr>block_addr = 10, insts = [Alloca 3], block_succs = [11]\<rparr> =
       [block_addr \<lparr>block_addr = 11, insts = [Other 4], block_succs = [12]\<rparr>] \<and>
     block_succs \<lparr>block_addr = 11, insts = [Other 4], block_succs = [12]\<rparr> =
       [block_addr \<lparr>block_addr = 12, insts = [Ret 5], block_succs = []\<rparr>] \<and>
     block_succs \<lparr>block_addr = 12, insts = [Ret 5], block_succs = []\<rparr> = [] \<and>
     list_all emits_no_node (insts \<lparr>block_addr = 11, insts = [Other 4], block_succs = [12]\<rparr>)"
    by (simp add: example_g_def)
  note linear = inst [THEN conjunct2, THEN conjunct2, THEN conjunct2, THEN conjunct2,
      THEN conjunct2, THEN mp, OF conjI [OF run shape]]
  from blocks all firsts stitch have first_part:
    "\<exists>built' first' u'.
      buildFunction_blocks (buildFunction 0 example_inputs) example_inputs (blocks example_g)
        Map.empty None example_builder = Inr ((built', first'), u') \<and>
      list_all (\<lambda>b. fst (built_at built' (block_addr b)) \<noteq> None \<and>
                     snd (built_at built' (block_addr b)) \<noteq> None) (blocks example_g) \<and>
      built_first built' 11 = 3 \<and> built_first built' 12 = 4 \<and>
      blockAddSuccessors 0 (blocks example_g) built' (Some 1, Some 2) [11, 12] u' =
        Inr (2, addSuccessor 2 4 (addSuccessor 2 3 u'))"
    by blast
  have second_part:
   "\<exists>r v'.
      buildFunction (Suc 0) example_inputs 103 example_g example_builder = Inr (r, v') \<and>
      map (\<lambda>k. rd_successors (rd_heap v' k)) [1, 2, 3, 4, 5, 6, 7] =
        [[3], [], [4], [5], [6], [7], [2]] \<and>
      (\<exists>built first_of_F w.
         buildFunction_blocks (buildFunction 0 example_inputs) example_inputs (blocks example_g)
           Map.empty None (function_entry 103 example_builder) = Inr ((built, Some first_of_F), w) \<and>
         v' = fold (\<lambda>l. addSuccessor l (Suc (rd_next example_builder)))
                (map (\<lambda>b. built_last built (block_addr b))
                   (filter (\<lambda>b. block_succs b = []) (blocks example_g)))
                (fold (\<lambda>b. fold (\<lambda>S. addSuccessor (built_last built (block_addr b))
                                       (built_first built S)) (block_succs b))
                   (blocks example_g)
                   (addSuccessor (rd_next example_builder) first_of_F w))) \<and>
      (\<exists>first_of_A last_of_A tA tB last_of_C tC.
         buildBlock (buildFunction 0 example_inputs) example_inputs
           \<lparr>block_addr = 10, insts = [Alloca 3], block_succs = [11]\<rparr>
           (function_entry 103 example_builder) = Inr ((Some first_of_A, Some last_of_A), tA) \<and>
         buildBlock (buildFunction 0 example_inputs) example_inputs
           \<lparr>block_addr = 11, insts = [Other 4], block_succs = [12]\<rparr> tA =
           Inr ((Some (rd_next tA), Some (rd_next tA)), tB) \<and>
         buildBlock (buildFunction 0 example_inputs) example_inputs
           \<lparr>block_addr = 12, insts = [Ret 5], block_succs = []\<rparr> tB =
           Inr ((Some (rd_next tB), Some last_of_C), tC) \<and>
         v' = addSuccessor last_of_C (Suc (rd_next example_builder))
                (addSuccessor (rd_next tA) (rd_next tB)
                   (addSuccessor last_of_A (rd_next tA)
                      (addSuccessor (rd_next example_builder) first_of_A tC))))"
    by (rule exI [of _ r], rule exI [of _ v']) (intro conjI run edges general linear)
  from no_node pair first_part second_part show ?thesis
    by (intro conjI)
qed

subsection \<open>The cache of subgraphs\<close>

lemma keeps_cache_refl: "keeps_cache s s"
  by (simp add: keeps_cache_def)

lemma keeps_cache_same: "subgraphs_map s' = subgraphs_map s \<Longrightarrow> keeps_cache s s'"
  by (simp add: keeps_cache_def)

lemma keeps_cache_cached: "keeps_cache s s' \<Longrightarrow> cached s f \<Longrightarrow> cached s' f"
  by (simp add: keeps_cache_def cached_def subgraph_at_def)

lemma keeps_cache_trans:
  assumes "keeps_cache s t" and "keeps_cache t u"
  shows "keeps_cache s u"
  unfolding keeps_cache_def
proof (intro allI impI)
  fix f
  assume c: "cached s f"
  with assms(1) have "subgraphs_map t f = subgraphs_map s f"
    by (simp add: keeps_cache_def)
  moreover from c assms(1) have "cached t f"
    by (rule keeps_cache_cached [rotated])
  with assms(2) have "subgraphs_map u f = subgraphs_map t f"
    by (simp add: keeps_cache_def)
  ultimately show "subgraphs_map u f = subgraphs_map s f"
    by simp
qed

lemma keeps_cache_left:
  "subgraphs_map t = subgraphs_map s \<Longrightarrow> keeps_cache t u \<Longrightarrow> keeps_cache s u"
  by (simp add: keeps_cache_def cached_def subgraph_at_def)

lemma keeps_cache_right:
  "keeps_cache s t \<Longrightarrow> subgraphs_map u = subgraphs_map t \<Longrightarrow> keeps_cache s u"
  by (simp add: keeps_cache_def)

lemma finite_uncached: "finite (uncached inp s)"
  by (simp add: uncached_def)

lemma uncached_same: "subgraphs_map s' = subgraphs_map s \<Longrightarrow> uncached inp s' = uncached inp s"
  by (simp add: uncached_def cached_def subgraph_at_def)

lemma uncached_mono: "keeps_cache s s' \<Longrightarrow> uncached inp s' \<subseteq> uncached inp s"
  by (auto simp add: uncached_def dest: keeps_cache_cached)

lemma card_uncached_mono: "keeps_cache s s' \<Longrightarrow> card (uncached inp s') \<le> card (uncached inp s)"
  by (intro card_mono finite_uncached uncached_mono)

lemma createAlloc_subgraphs_map: "subgraphs_map (snd (createAlloc Inst s)) = subgraphs_map s"
  by (simp add: createAlloc_def new_RDNode_def addNode_def)

lemma createStore_subgraphs_map:
  assumes "createStore inp Inst ty op1 s = Inr (node, s')"
  shows "subgraphs_map s' = subgraphs_map s"
proof (cases "getPointsTo (PTA inp) op1")
  case None
  with assms show ?thesis
    by (simp add: createStore_def new_RDNode_def)
next
  case (Some pts)
  with assms have
    "createStore_pointers inp ty (length (pointsTo pts)) (rd_next s) (pointsTo pts)
       (addNode Inst (rd_next s) (snd (new_RDNode s))) = Inr s'"
    by (auto simp add: createStore_def new_RDNode_def split: sum.splits)
  from createStore_pointers_frame [OF this] show ?thesis
    by (simp add: addNode_def new_RDNode_def)
qed

lemma createStore_returns: "createStore inp Inst ty op1 s \<noteq> Inl OutOfFuel"
proof -
  have loop: "createStore_pointers inp ty n node ps t \<noteq> Inl OutOfFuel" for n node ps t
    by (induction ps arbitrary: t) (auto simp add: Let_def split: option.splits)
  show ?thesis
    using loop by (auto simp add: createStore_def new_RDNode_def split: option.splits sum.splits)
qed

subsection \<open>Calls keep the cache and return\<close>

lemma createCallToFunction_keeps:
  assumes bf: "bf_keeps bf"
    and run: "createCallToFunction bf inp CInst F s = Inr (cf, s')"
  shows "keeps_cache s s'"
proof -
  define s2 where "s2 = snd (new_RDNode (snd (new_RDNode s)))"
  have m2: "subgraphs_map s2 = subgraphs_map s"
    by (simp add: s2_def new_RDNode_def)
  show ?thesis
  proof (cases "root (subgraph_at s2 F) = None")
    case False
    with run have "subgraphs_map s' = subgraphs_map s2"
      by (auto simp add: createCallToFunction_def s2_def new_RDNode_def addSuccessor_def
          split: option.splits)
    with m2 show ?thesis
      by (simp add: keeps_cache_same)
  next
    case True
    with run obtain f Fn r s3 where F: "F = Some f"
      and call: "bf f Fn s2 = Inr (r, s3)"
      and fin: "subgraphs_map s' = subgraphs_map s3"
      by (auto simp add: createCallToFunction_def s2_def new_RDNode_def addSuccessor_def
          split: option.splits sum.splits)
    from True F have "\<not> cached s2 f"
      by (simp add: cached_def)
    with bf call have "keeps_cache s2 s3"
      unfolding bf_keeps_def by blast
    with m2 fin show ?thesis
      by (blast intro: keeps_cache_left keeps_cache_right)
  qed
qed

lemma createCallToFunction_returns:
  assumes bf: "bf_returns inp m bf"
    and card: "card (uncached inp s) \<le> m"
  shows "createCallToFunction bf inp CInst F s \<noteq> Inl OutOfFuel"
proof -
  define s2 where "s2 = snd (new_RDNode (snd (new_RDNode s)))"
  have m2: "subgraphs_map s2 = subgraphs_map s"
    by (simp add: s2_def new_RDNode_def)
  have call: "bf f Fn s2 \<noteq> Inl OutOfFuel"
    if "root (subgraph_at s2 (Some f)) = None" and "map_of (funcs (M inp)) f = Some Fn" for f Fn
  proof -
    from that(2) have "f \<in> fst ` set (funcs (M inp))"
      by (force dest: map_of_SomeD)
    with that(1) have "f \<in> uncached inp s2"
      by (simp add: uncached_def cached_def)
    moreover from card have "card (uncached inp s2) \<le> m"
      by (simp add: uncached_same [OF m2])
    ultimately show ?thesis
      using bf unfolding bf_returns_def by blast
  qed
  show ?thesis
  proof (cases "root (subgraph_at s2 F) = None")
    case False
    then show ?thesis
      by (auto simp add: createCallToFunction_def s2_def new_RDNode_def split: option.splits)
  next
    case True
    show ?thesis
    proof (cases F)
      case None
      with True show ?thesis
        by (simp add: createCallToFunction_def s2_def new_RDNode_def)
    next
      case (Some f)
      show ?thesis
      proof (cases "map_of (funcs (M inp)) f")
        case None
        with True Some show ?thesis
          by (simp add: createCallToFunction_def s2_def new_RDNode_def)
      next
        case (Some Fn)
        from call [OF True [unfolded \<open>F = Some f\<close>] Some] True \<open>F = Some f\<close> Some
        show ?thesis
          by (auto simp add: createCallToFunction_def s2_def new_RDNode_def
              split: sum.splits option.splits)
      qed
    qed
  qed
qed

lemma createCall_pointers_keeps:
  assumes bf: "bf_keeps bf"
  shows "createCall_pointers bf inp CInst c r ps s = Inr s' \<Longrightarrow> keeps_cache s s'"
proof (induction ps arbitrary: s)
  case Nil
  then show ?case by (simp add: keeps_cache_refl)
next
  case (Cons ptr rest)
  show ?case
  proof (cases "isNull ptr")
    case True
    with Cons show ?thesis by simp
  next
    case False
    with Cons.prems obtain cf s1 where
      call: "createCallToFunction bf inp CInst (getUserData (PTA inp) (target ptr)) s = Inr (cf, s1)"
      and rest: "createCall_pointers bf inp CInst c r rest
                   (addSuccessor (snd cf) r (addSuccessor c (fst cf) s1)) = Inr s'"
      by (auto simp add: Let_def split: sum.splits)
    from createCallToFunction_keeps [OF bf call]
    have "keeps_cache s (addSuccessor (snd cf) r (addSuccessor c (fst cf) s1))"
      by (rule keeps_cache_right) (simp add: addSuccessor_def)
    with Cons.IH [OF rest] show ?thesis
      by (rule keeps_cache_trans [rotated])
  qed
qed

lemma createCall_pointers_returns:
  assumes bf: "bf_keeps bf" and bfr: "bf_returns inp m bf"
  shows "card (uncached inp s) \<le> m \<Longrightarrow>
         createCall_pointers bf inp CInst c r ps s \<noteq> Inl OutOfFuel"
proof (induction ps arbitrary: s)
  case Nil
  show ?case by simp
next
  case (Cons ptr rest)
  show ?case
  proof (cases "isNull ptr")
    case True
    with Cons show ?thesis by simp
  next
    case False
    show ?thesis
    proof (cases "createCallToFunction bf inp CInst (getUserData (PTA inp) (target ptr)) s")
      case (Inl e)
      with createCallToFunction_returns [OF bfr Cons.prems, of CInst "getUserData (PTA inp) (target ptr)"]
        False show ?thesis
        by (simp add: Let_def)
    next
      case (Inr res)
      obtain cf s1 where res: "res = (cf, s1)"
        by (cases res)
      define s2 where "s2 = addSuccessor (snd cf) r (addSuccessor c (fst cf) s1)"
      from createCallToFunction_keeps [OF bf Inr [unfolded res]]
      have "keeps_cache s s2"
        by (rule keeps_cache_right) (simp add: s2_def addSuccessor_def)
      with Cons.prems have "card (uncached inp s2) \<le> m"
        using card_uncached_mono [of s s2 inp] by simp
      from Cons.IH [OF this] False Inr res show ?thesis
        by (simp add: Let_def s2_def)
    qed
  qed
qed

lemma createCall_keeps:
  assumes bf: "bf_keeps bf"
    and run: "createCall bf inp CInst cv s = Inr (cf, s')"
  shows "keeps_cache s s'"
proof (cases cv)
  case (Func f)
  with run obtain func type where
    func: "map_of (funcs (M inp)) f = Some func"
    and type: "getMemAllocationFunc (Some func) = Inr type"
    by (auto simp add: createCall_def split: option.splits sum.splits)
  show ?thesis
  proof (cases "type \<noteq> NONEMEM \<or> length (blocks func) = 0")
    case True
    with run Func func type have "subgraphs_map s' = subgraphs_map s"
      by (auto simp add: createCall_def createAlloc_def new_RDNode_def addNode_def)
    then show ?thesis
      by (rule keeps_cache_same)
  next
    case False
    with run Func func type obtain s1 where
      call: "createCallToFunction bf inp CInst (Some f) s = Inr (cf, s1)"
      and fin: "s' = addNode CInst (fst cf) s1"
      by (auto simp add: createCall_def split: if_splits sum.splits)
    from createCallToFunction_keeps [OF bf call] fin show ?thesis
      by (auto intro: keeps_cache_right simp add: addNode_def)
  qed
next
  case (FuncPtr v)
  with run obtain op where op: "getPointsTo (PTA inp) v = Some op" and ne: "pointsTo op \<noteq> []"
    by (auto simp add: createCall_def split: option.splits if_splits)
  show ?thesis
  proof (cases "1 < length (pointsTo op)")
    case True
    define s3 where "s3 = addNode CInst (rd_next s) (snd (new_RDNode (snd (new_RDNode s))))"
    have m3: "subgraphs_map s3 = subgraphs_map s"
      by (simp add: s3_def addNode_def new_RDNode_def)
    from run FuncPtr op ne True
    have "createCall_pointers bf inp CInst (rd_next s) (Suc (rd_next s)) (pointsTo op) s3 = Inr s'"
      by (auto simp add: createCall_def new_RDNode_def s3_def split: sum.splits)
    from createCall_pointers_keeps [OF bf this] m3 show ?thesis
      by (blast intro: keeps_cache_left)
  next
    case False
    with run FuncPtr op ne
    have "createCallToFunction bf inp CInst (getUserData (PTA inp) (target (hd (pointsTo op)))) s
            = Inr (cf, s')"
      by (simp add: createCall_def)
    then show ?thesis
      by (rule createCallToFunction_keeps [OF bf])
  qed
qed

lemma getMemAllocationFunc_returns: "getMemAllocationFunc func \<noteq> Inl OutOfFuel"
  by (simp add: getMemAllocationFunc_def split: option.splits)

lemma createCall_returns:
  assumes bf: "bf_keeps bf" and bfr: "bf_returns inp m bf"
    and card: "card (uncached inp s) \<le> m"
  shows "createCall bf inp CInst cv s \<noteq> Inl OutOfFuel"
proof (cases cv)
  case (Func f)
  have one: "createCallToFunction bf inp CInst (Some f) s \<noteq> Inl OutOfFuel"
    by (rule createCallToFunction_returns [OF bfr card])
  show ?thesis
  proof (cases "map_of (funcs (M inp)) f")
    case None
    with Func show ?thesis
      by (simp add: createCall_def)
  next
    case (Some func)
    show ?thesis
    proof (cases "getMemAllocationFunc (Some func)")
      case (Inl e)
      with getMemAllocationFunc_returns [of "Some func"] Func Some show ?thesis
        by (simp add: createCall_def)
    next
      case (Inr type)
      show ?thesis
      proof (cases "type \<noteq> NONEMEM \<or> length (blocks func) = 0")
        case True
        with Func Some Inr show ?thesis
          by (auto simp add: createCall_def split: prod.splits)
      next
        case False
        with Func Some Inr one show ?thesis
          by (auto simp add: createCall_def split: sum.splits)
      qed
    qed
  qed
next
  case (FuncPtr v)
  define s3 where "s3 = addNode CInst (rd_next s) (snd (new_RDNode (snd (new_RDNode s))))"
  have m3: "subgraphs_map s3 = subgraphs_map s"
    by (simp add: s3_def addNode_def new_RDNode_def)
  from card have "card (uncached inp s3) \<le> m"
    by (simp add: uncached_same [OF m3])
  from createCall_pointers_returns [OF bf bfr this]
  have loop: "createCall_pointers bf inp CInst (rd_next s) (Suc (rd_next s)) ps s3 \<noteq> Inl OutOfFuel"
    for ps .
  have one: "createCallToFunction bf inp CInst F s \<noteq> Inl OutOfFuel" for F
    by (rule createCallToFunction_returns [OF bfr card])
  show ?thesis
  proof (cases "getPointsTo (PTA inp) v")
    case None
    with FuncPtr show ?thesis
      by (simp add: createCall_def)
  next
    case (Some op)
    show ?thesis
    proof (cases "1 < length (pointsTo op)")
      case True
      with FuncPtr Some loop [of "pointsTo op"] show ?thesis
        by (auto simp add: createCall_def new_RDNode_def s3_def split: sum.splits)
    next
      case False
      with FuncPtr Some one show ?thesis
        by (simp add: createCall_def)
    qed
  qed
qed

subsection \<open>Blocks keep the cache and return\<close>

lemma link_prev_returns: "link_prev prev_node node s \<noteq> Inl OutOfFuel"
  by (simp add: link_prev_def split: option.splits)

lemma buildBlock_inst_keeps:
  assumes bf: "bf_keeps bf"
    and run: "buildBlock_inst bf inp Inst node s = Inr (node', s')"
  shows "keeps_cache s s'"
proof -
  define s1 where "s1 = s\<lparr>mapping := (mapping s)(inst_addr Inst := node)\<rparr>"
  have m1: "subgraphs_map s1 = subgraphs_map s"
    by (simp add: s1_def)
  have "\<exists>p n3 s3. keeps_cache s1 s3 \<and> link_prev p n3 s3 = Inr s'"
  proof (cases Inst)
    case (Alloca a)
    with run have "link_prev node (Some (fst (createAlloc a s1))) (snd (createAlloc a s1)) = Inr s'"
      by (auto simp add: buildBlock_inst_def s1_def Let_def split: prod.splits sum.splits)
    moreover have "keeps_cache s1 (snd (createAlloc a s1))"
      by (simp add: keeps_cache_same createAlloc_subgraphs_map)
    ultimately show ?thesis
      by blast
  next
    case (Store a ty ptr)
    with run obtain n s2 where store: "createStore inp a ty ptr s1 = Inr (n, s2)"
      and "link_prev node (Some n) s2 = Inr s'"
      by (auto simp add: buildBlock_inst_def s1_def Let_def split: prod.splits sum.splits)
    moreover from createStore_subgraphs_map [OF store] have "keeps_cache s1 s2"
      by (rule keeps_cache_same)
    ultimately show ?thesis
      by blast
  next
    case (Ret a)
    with run have "link_prev node (Some (fst (createAlloc a s1))) (snd (createAlloc a s1)) = Inr s'"
      by (auto simp add: buildBlock_inst_def s1_def Let_def split: prod.splits sum.splits)
    moreover have "keeps_cache s1 (snd (createAlloc a s1))"
      by (simp add: keeps_cache_same createAlloc_subgraphs_map)
    ultimately show ?thesis
      by blast
  next
    case (Call a dbg cv)
    show ?thesis
    proof (cases dbg)
      case True
      with run Call have "link_prev node node s1 = Inr s'"
        by (auto simp add: buildBlock_inst_def s1_def Let_def split: sum.splits)
      with keeps_cache_refl show ?thesis
        by blast
    next
      case False
      with run Call obtain subg s2 p where call: "createCall bf inp a cv s1 = Inr (subg, s2)"
        and link: "link_prev (Some (snd subg)) (Some (snd subg)) (addSuccessor p (fst subg) s2) = Inr s'"
        by (auto simp add: buildBlock_inst_def s1_def Let_def split: sum.splits option.splits)
      from createCall_keeps [OF bf call]
      have "keeps_cache s1 (addSuccessor p (fst subg) s2)"
        by (rule keeps_cache_right) (simp add: addSuccessor_def)
      with link show ?thesis
        by blast
    qed
  next
    case (Other a)
    with run have "link_prev node node s1 = Inr s'"
      by (auto simp add: buildBlock_inst_def s1_def Let_def split: sum.splits)
    with keeps_cache_refl show ?thesis
      by blast
  qed
  then obtain p n3 s3 where k: "keeps_cache s1 s3" and link: "link_prev p n3 s3 = Inr s'"
    by blast
  from k link_prev_subgraphs_map [OF link] have "keeps_cache s1 s'"
    by (rule keeps_cache_right)
  with m1 show ?thesis
    by (rule keeps_cache_left)
qed

lemma buildBlock_inst_returns:
  assumes bf: "bf_keeps bf" and bfr: "bf_returns inp m bf"
    and card: "card (uncached inp s) \<le> m"
  shows "buildBlock_inst bf inp Inst node s \<noteq> Inl OutOfFuel"
proof -
  define s1 where "s1 = s\<lparr>mapping := (mapping s)(inst_addr Inst := node)\<rparr>"
  have m1: "subgraphs_map s1 = subgraphs_map s"
    by (simp add: s1_def)
  from card have "card (uncached inp s1) \<le> m"
    by (simp add: uncached_same [OF m1])
  from createCall_returns [OF bf bfr this]
  have call: "createCall bf inp a cv s1 \<noteq> Inl OutOfFuel" for a cv .
  have store: "createStore inp a ty ptr s1 \<noteq> Inl OutOfFuel" for a ty ptr
    by (rule createStore_returns)
  have link: "link_prev p n t \<noteq> Inl OutOfFuel" for p n t
    by (rule link_prev_returns)
  show ?thesis
  proof (cases Inst)
    case (Alloca a)
    with link show ?thesis
      by (auto simp add: buildBlock_inst_def Let_def split: prod.splits sum.splits)
  next
    case (Store a ty ptr)
    with link store [of a ty ptr] show ?thesis
      by (auto simp add: buildBlock_inst_def s1_def Let_def split: prod.splits sum.splits)
  next
    case (Ret a)
    with link show ?thesis
      by (auto simp add: buildBlock_inst_def Let_def split: prod.splits sum.splits)
  next
    case (Call a dbg cv)
    with link call [of a cv] show ?thesis
      by (auto simp add: buildBlock_inst_def s1_def Let_def
          split: prod.splits sum.splits option.splits)
  next
    case (Other a)
    with link show ?thesis
      by (auto simp add: buildBlock_inst_def Let_def split: prod.splits sum.splits)
  qed
qed

lemma buildBlock_insts_keeps:
  assumes bf: "bf_keeps bf"
  shows "buildBlock_insts bf inp is node s = Inr (node', s') \<Longrightarrow> keeps_cache s s'"
proof (induction "is" arbitrary: node s)
  case Nil
  then show ?case by (simp add: keeps_cache_refl)
next
  case (Cons Inst rest)
  from Cons.prems obtain node1 s1 where
    step: "buildBlock_inst bf inp Inst node s = Inr (node1, s1)"
    and rest: "buildBlock_insts bf inp rest node1 s1 = Inr (node', s')"
    by (auto split: sum.splits)
  from buildBlock_inst_keeps [OF bf step] Cons.IH [OF rest] show ?case
    by (rule keeps_cache_trans)
qed

lemma buildBlock_insts_returns:
  assumes bf: "bf_keeps bf" and bfr: "bf_returns inp m bf"
  shows "card (uncached inp s) \<le> m \<Longrightarrow> buildBlock_insts bf inp is node s \<noteq> Inl OutOfFuel"
proof (induction "is" arbitrary: node s)
  case Nil
  show ?case by simp
next
  case (Cons Inst rest)
  show ?case
  proof (cases "buildBlock_inst bf inp Inst node s")
    case (Inl e)
    with buildBlock_inst_returns [OF bf bfr Cons.prems, of Inst node] show ?thesis
      by simp
  next
    case (Inr res)
    obtain node1 s1 where res: "res = (node1, s1)"
      by (cases res)
    from buildBlock_inst_keeps [OF bf Inr [unfolded res]] Cons.prems
    have "card (uncached inp s1) \<le> m"
      using card_uncached_mono [of s s1 inp] by simp
    from Cons.IH [OF this] Inr res show ?thesis
      by simp
  qed
qed

lemma buildBlock_keeps:
  assumes bf: "bf_keeps bf"
    and run: "buildBlock bf inp block s = Inr (nds, s')"
  shows "keeps_cache s s'"
proof -
  from run obtain last_node where
    "buildBlock_insts bf inp (insts block) (Some (rd_next s)) (snd (new_RDNode s)) = Inr (last_node, s')"
    by (auto simp add: buildBlock_def new_RDNode_def split: sum.splits)
  from buildBlock_insts_keeps [OF bf this] show ?thesis
    by (rule keeps_cache_left [rotated]) (simp add: new_RDNode_def)
qed

lemma buildBlock_returns:
  assumes bf: "bf_keeps bf" and bfr: "bf_returns inp m bf"
    and card: "card (uncached inp s) \<le> m"
  shows "buildBlock bf inp block s \<noteq> Inl OutOfFuel"
proof -
  have m1: "subgraphs_map (snd (new_RDNode s)) = subgraphs_map s"
    by (simp add: new_RDNode_def)
  from card have "card (uncached inp (snd (new_RDNode s))) \<le> m"
    by (simp add: uncached_same [OF m1])
  from buildBlock_insts_returns [OF bf bfr this, of "insts block" "Some (rd_next s)"]
  show ?thesis
    by (auto simp add: buildBlock_def new_RDNode_def split: sum.splits)
qed

lemma buildFunction_blocks_keeps:
  assumes bf: "bf_keeps bf"
  shows "buildFunction_blocks bf inp bs built first_node s = Inr (res, s') \<Longrightarrow> keeps_cache s s'"
proof (induction bs arbitrary: built first_node s)
  case Nil
  then show ?case by (simp add: keeps_cache_refl)
next
  case (Cons block rest)
  from Cons.prems obtain nds s1 built1 first1 where
    step: "buildBlock bf inp block s = Inr (nds, s1)"
    and rest: "buildFunction_blocks bf inp rest built1 first1 s1 = Inr (res, s')"
    by (auto split: sum.splits prod.splits option.splits)
  from buildBlock_keeps [OF bf step] Cons.IH [OF rest] show ?case
    by (rule keeps_cache_trans)
qed

lemma buildFunction_blocks_returns:
  assumes bf: "bf_keeps bf" and bfr: "bf_returns inp m bf"
  shows "card (uncached inp s) \<le> m \<Longrightarrow>
         buildFunction_blocks bf inp bs built first_node s \<noteq> Inl OutOfFuel"
proof (induction bs arbitrary: built first_node s)
  case Nil
  show ?case by simp
next
  case (Cons block rest)
  show ?case
  proof (cases "buildBlock bf inp block s")
    case (Inl e)
    with buildBlock_returns [OF bf bfr Cons.prems, of block] show ?thesis
      by simp
  next
    case (Inr res)
    obtain nds s1 where res: "res = (nds, s1)"
      by (cases res)
    from buildBlock_keeps [OF bf Inr [unfolded res]] Cons.prems
    have "card (uncached inp s1) \<le> m"
      using card_uncached_mono [of s s1 inp] by simp
    from Cons.IH [OF this] Inr res show ?thesis
      by (auto split: prod.splits option.splits)
  qed
qed

lemma blockAddSuccessors_built:
  assumes built: "\<forall>b \<in> set bbs. built_pair built (block_addr b)"
  shows "case blockAddSuccessors fuel bbs built pssn succs s of
           Inl e \<Rightarrow> e \<noteq> OutOfFuel
         | Inr (k, s') \<Rightarrow> subgraphs_map s' = subgraphs_map s"
proof (induction succs arbitrary: s)
  case Nil
  show ?case by simp
next
  case (Cons S rest)
  have found: "find (\<lambda>b. block_addr b = S) bbs = Some b \<Longrightarrow> built_at built S \<noteq> (None, None)" for b
  proof -
    assume "find (\<lambda>b. block_addr b = S) bbs = Some b"
    then have "b \<in> set bbs" and "block_addr b = S"
      by (auto simp add: find_Some_iff)
    with built have "built_pair built S"
      by blast
    then show ?thesis
      by (auto simp add: built_pair_def built_at_def)
  qed
  show ?case
  proof (cases "built_at built S")
    case (Pair a b)
    show ?thesis
    proof (cases a)
      case None
      note a = this
      show ?thesis
      proof (cases b)
        case None
        with a Pair found show ?thesis
          by (cases "find (\<lambda>b. block_addr b = S) bbs") simp_all
      next
        case (Some y)
        with a Pair show ?thesis
          by simp
      qed
    next
      case (Some x)
      note a = this
      show ?thesis
      proof (cases b)
        case None
        with a Pair show ?thesis
          by simp
      next
        case (Some y)
        show ?thesis
        proof (cases "snd pssn")
          case None
          with a Some Pair show ?thesis
            by simp
        next
          case (Some l)
          from Cons.IH [of "addSuccessor l x s"] a \<open>b = Some y\<close> Pair Some show ?thesis
            by (auto simp add: addSuccessor_def split: sum.splits)
        qed
      qed
    qed
  qed
qed

lemma buildFunction_succs_built:
  assumes built: "\<forall>b \<in> set bbs. built_pair built (block_addr b)"
  shows "case buildFunction_succs fuel bbs built bs rets s of
           Inl e \<Rightarrow> e \<noteq> OutOfFuel
         | Inr (rets', s') \<Rightarrow> subgraphs_map s' = subgraphs_map s"
proof (induction bs arbitrary: rets s)
  case Nil
  show ?case by simp
next
  case (Cons block rest)
  show ?case
  proof (cases "built (block_addr block)")
    case None
    with Cons.IH [where rets = rets and s = s] show ?thesis
      by simp
  next
    case (Some pssn)
    obtain a b where pssn: "pssn = (a, b)"
      by (cases pssn)
    show ?thesis
    proof (cases a)
      case None
      with Some pssn Cons.IH [where rets = rets and s = s] show ?thesis
        by (cases b) simp_all
    next
      case (Some x)
      note a = this
      show ?thesis
      proof (cases b)
        case None
        with a pssn \<open>built (block_addr block) = Some pssn\<close> show ?thesis
          by simp
      next
        case (Some l)
        show ?thesis
        proof (cases "blockAddSuccessors fuel bbs built pssn (block_succs block) s")
          case (Inl e)
          with blockAddSuccessors_built [OF built, where fuel = fuel and pssn = pssn and succs = "block_succs block" and s = s]
            a Some pssn \<open>built (block_addr block) = Some pssn\<close> show ?thesis
            by simp
        next
          case (Inr res)
          obtain k s1 where res: "res = (k, s1)"
            by (cases res)
          from blockAddSuccessors_built [OF built, where fuel = fuel and pssn = pssn and succs = "block_succs block" and s = s] Inr res
          have m1: "subgraphs_map s1 = subgraphs_map s"
            by simp
          from Cons.IH [where rets = "if k = 0 then rets @ [l] else rets" and s = s1] m1 Inr res
            a Some pssn \<open>built (block_addr block) = Some pssn\<close> show ?thesis
            by (auto split: sum.splits)
        qed
      qed
    qed
  qed
qed

lemma fold_addSuccessor_subgraphs_map:
  "subgraphs_map (fold (\<lambda>r. addSuccessor r ret_node) rets s) = subgraphs_map s"
  by (induction rets arbitrary: s) (simp_all add: addSuccessor_def)

subsection \<open>buildFunction keeps the cache and returns\<close>

lemma buildFunction_body_result:
  assumes bf: "bf_keeps bf"
    and run: "buildFunction_body fuel bf inp f F s = Inr (r, s')"
  shows "r = rd_next s"
    and "subgraphs_map s' f = Some \<lparr>root = Some (rd_next s), ret = Some (Suc (rd_next s))\<rparr>"
    and "\<And>g. g \<noteq> f \<Longrightarrow> cached s g \<Longrightarrow> subgraphs_map s' g = subgraphs_map s g"
proof -
  define s3 where "s3 = (snd (new_RDNode (snd (new_RDNode s))))
    \<lparr>subgraphs_map := (subgraphs_map s)
       (f \<mapsto> \<lparr>root = Some (rd_next s), ret = Some (Suc (rd_next s))\<rparr>)\<rparr>"
  have body: "buildFunction_body fuel bf inp f F s =
     (case buildFunction_blocks bf inp (blocks F) Map.empty None s3 of
        Inl e \<Rightarrow> Inl e
      | Inr ((built_blocks, first), s4) \<Rightarrow>
          (case first of
             None \<Rightarrow> Inl AssertFirst
           | Some first_node \<Rightarrow>
               (case buildFunction_succs fuel (blocks F) built_blocks (blocks F) []
                       (addSuccessor (rd_next s) first_node s4) of
                  Inl e \<Rightarrow> Inl e
                | Inr (rets, s5) \<Rightarrow>
                    if rets = [] then Inl AssertRetsNotEmpty
                    else Inr (rd_next s, fold (\<lambda>r. addSuccessor r (Suc (rd_next s))) rets s5))))"
    by (simp add: buildFunction_body_def new_RDNode_def s3_def Let_def
        split: sum.splits option.splits prod.splits)
  obtain res where blocks0: "buildFunction_blocks bf inp (blocks F) Map.empty None s3 = Inr res"
    using run unfolding body
    by (cases "buildFunction_blocks bf inp (blocks F) Map.empty None s3") simp_all
  obtain built first s4 where res: "res = ((built, first), s4)"
    by (cases res) auto
  obtain first_node where first: "first = Some first_node"
    using run unfolding body by (cases first) (simp_all add: blocks0 res)
  note blocks = blocks0 [unfolded res first]
  obtain res2 where succs0: "buildFunction_succs fuel (blocks F) built (blocks F) []
                  (addSuccessor (rd_next s) first_node s4) = Inr res2"
    using run unfolding body
    by (cases "buildFunction_succs fuel (blocks F) built (blocks F) []
                  (addSuccessor (rd_next s) first_node s4)") (simp_all add: blocks)
  obtain rets s5 where res2: "res2 = (rets, s5)"
    by (cases res2)
  note succs = succs0 [unfolded res2]
  from run have fin: "s' = fold (\<lambda>r. addSuccessor r (Suc (rd_next s))) rets s5"
    and r: "r = rd_next s"
    unfolding body by (auto simp add: blocks succs split: if_splits)
  show "r = rd_next s"
    by (rule r)
  from buildFunction_blocks_keeps [OF bf blocks] have k34: "keeps_cache s3 s4" .
  from buildFunction_blocks_built [OF blocks]
  have built: "\<forall>b \<in> set (blocks F). built_pair built (block_addr b)"
    by blast
  from buildFunction_succs_built [OF built, where fuel = fuel and bs = "blocks F" and rets = "[]"
      and s = "addSuccessor (rd_next s) first_node s4"] succs
  have "subgraphs_map s5 = subgraphs_map s4"
    by (simp add: addSuccessor_def)
  with fin have m': "subgraphs_map s' = subgraphs_map s4"
    by (simp add: fold_addSuccessor_subgraphs_map)
  have c3: "cached s3 f"
    by (simp add: cached_def subgraph_at_def s3_def)
  with k34 have "subgraphs_map s4 f = subgraphs_map s3 f"
    by (simp add: keeps_cache_def)
  with m' show "subgraphs_map s' f = Some \<lparr>root = Some (rd_next s), ret = Some (Suc (rd_next s))\<rparr>"
    by (simp add: s3_def)
  show "subgraphs_map s' g = subgraphs_map s g" if "g \<noteq> f" and "cached s g" for g
  proof -
    from that have "cached s3 g" and "subgraphs_map s3 g = subgraphs_map s g"
      by (simp_all add: cached_def subgraph_at_def s3_def new_RDNode_def)
    with k34 have "subgraphs_map s4 g = subgraphs_map s g"
      by (simp add: keeps_cache_def)
    with m' show ?thesis
      by simp
  qed
qed

lemma buildFunction_body_returns:
  assumes bf: "bf_keeps bf" and bfr: "bf_returns inp m bf"
    and card: "card (uncached inp s - {f}) \<le> m"
  shows "buildFunction_body fuel bf inp f F s \<noteq> Inl OutOfFuel"
proof -
  define s3 where "s3 = (snd (new_RDNode (snd (new_RDNode s))))
    \<lparr>subgraphs_map := (subgraphs_map s)
       (f \<mapsto> \<lparr>root = Some (rd_next s), ret = Some (Suc (rd_next s))\<rparr>)\<rparr>"
  have body: "buildFunction_body fuel bf inp f F s =
     (case buildFunction_blocks bf inp (blocks F) Map.empty None s3 of
        Inl e \<Rightarrow> Inl e
      | Inr ((built_blocks, first), s4) \<Rightarrow>
          (case first of
             None \<Rightarrow> Inl AssertFirst
           | Some first_node \<Rightarrow>
               (case buildFunction_succs fuel (blocks F) built_blocks (blocks F) []
                       (addSuccessor (rd_next s) first_node s4) of
                  Inl e \<Rightarrow> Inl e
                | Inr (rets, s5) \<Rightarrow>
                    if rets = [] then Inl AssertRetsNotEmpty
                    else Inr (rd_next s, fold (\<lambda>r. addSuccessor r (Suc (rd_next s))) rets s5))))"
    by (simp add: buildFunction_body_def new_RDNode_def s3_def Let_def
        split: sum.splits option.splits prod.splits)
  have "uncached inp s3 = uncached inp s - {f}"
    by (auto simp add: uncached_def cached_def subgraph_at_def s3_def new_RDNode_def)
  with card have "card (uncached inp s3) \<le> m"
    by simp
  from buildFunction_blocks_returns [OF bf bfr this]
  have blocks: "buildFunction_blocks bf inp (blocks F) Map.empty None s3 \<noteq> Inl OutOfFuel" .
  show ?thesis
  proof (cases "buildFunction_blocks bf inp (blocks F) Map.empty None s3")
    case (Inl e)
    with blocks show ?thesis
      by (simp add: body)
  next
    case (Inr res)
    obtain built first s4 where res: "res = ((built, first), s4)"
      by (cases res) auto
    show ?thesis
    proof (cases first)
      case None
      with Inr res show ?thesis
        by (simp add: body)
    next
      case (Some first_node)
      from buildFunction_blocks_built [OF Inr [unfolded res]]
      have built: "\<forall>b \<in> set (blocks F). built_pair built (block_addr b)"
        by blast
      from buildFunction_succs_built [OF built, where fuel = fuel and bs = "blocks F"
          and rets = "[]" and s = "addSuccessor (rd_next s) first_node s4"]
      have "buildFunction_succs fuel (blocks F) built (blocks F) []
              (addSuccessor (rd_next s) first_node s4) \<noteq> Inl OutOfFuel"
        by (auto split: sum.splits)
      with Inr res Some show ?thesis
        by (auto simp add: body split: sum.splits)
    qed
  qed
qed

lemma buildFunction_keeps: "bf_keeps (buildFunction fuel inp)"
proof (induction fuel)
  case 0
  show ?case
    by (simp add: bf_keeps_def)
next
  case (Suc fuel)
  show ?case
    unfolding bf_keeps_def
  proof (intro allI impI)
    fix f F s r s'
    assume nc: "\<not> cached s f"
      and run: "buildFunction (Suc fuel) inp f F s = Inr (r, s')"
    from run have "buildFunction_body fuel (buildFunction fuel inp) inp f F s = Inr (r, s')"
      by simp
    note keep = buildFunction_body_result(3) [OF Suc this]
    show "keeps_cache s s'"
      unfolding keeps_cache_def
    proof (intro allI impI)
      fix g
      assume c: "cached s g"
      with nc have "g \<noteq> f"
        by auto
      then show "subgraphs_map s' g = subgraphs_map s g"
        using c by (rule keep)
    qed
  qed
qed

lemma buildFunction_returns:
  "card (uncached inp s - {f}) < fuel \<Longrightarrow> buildFunction fuel inp f F s \<noteq> Inl OutOfFuel"
proof (induction fuel arbitrary: f F s)
  case 0
  then show ?case by simp
next
  case (Suc fuel)
  have "bf_returns inp fuel (buildFunction fuel inp)"
    unfolding bf_returns_def
  proof (intro allI impI)
    fix g G t
    assume g: "g \<in> uncached inp t" and c: "card (uncached inp t) \<le> fuel"
    from g have "card (uncached inp t - {g}) < card (uncached inp t)"
      by (intro card_Diff1_less finite_uncached)
    with c have "card (uncached inp t - {g}) < fuel"
      by simp
    then show "buildFunction fuel inp g G t \<noteq> Inl OutOfFuel"
      by (rule Suc.IH)
  qed
  moreover from Suc.prems have "card (uncached inp s - {f}) \<le> fuel"
    by simp
  ultimately have "buildFunction_body fuel (buildFunction fuel inp) inp f F s \<noteq> Inl OutOfFuel"
    by (intro buildFunction_body_returns buildFunction_keeps)
  then show ?case
    by simp
qed

lemma card_uncached_le: "card (uncached inp s - {f}) \<le> length (funcs (M inp))"
proof -
  have "uncached inp s - {f} \<subseteq> fst ` set (funcs (M inp))"
    by (auto simp add: uncached_def)
  then have "card (uncached inp s - {f}) \<le> card (fst ` set (funcs (M inp)))"
    by (intro card_mono) simp_all
  also have "\<dots> \<le> card (set (funcs (M inp)))"
    by (intro card_image_le) simp
  also have "\<dots> \<le> length (funcs (M inp))"
    by (rule card_length)
  finally show ?thesis .
qed

lemma createCallToFunction_cached:
  assumes "subgraphs_map t f = Some \<lparr>root = Some root_node, ret = Some ret_node\<rparr>"
  shows "createCallToFunction bf inp CInst (Some f) t =
     Inr ((Suc (rd_next t), rd_next t),
          addSuccessor ret_node (rd_next t)
            (addSuccessor (Suc (rd_next t)) root_node (snd (new_RDNode (snd (new_RDNode t))))))"
  using assms by (simp add: createCallToFunction_def new_RDNode_def subgraph_at_def)

lemma buildFunction_numeral:
  "buildFunction (numeral k) inp f F s =
     buildFunction_body (pred_numeral k) (buildFunction (pred_numeral k) inp) inp f F s"
  by (simp add: numeral_eq_Suc)

text \<open>
  C4.  \<open>buildFunction\<close> returns, with a graph or with a failed assertion, as soon as
  the depth allowed for the nested calls exceeds the number of functions of the module,
  however the functions call one another.  The subgraph it puts into \<open>subgraphs_map\<close>
  before it builds the blocks is the one the map holds for the function when it
  returns, and the subgraphs of the other functions that were cached before are the
  same afterwards: none is built a second time.  A call of a function that has a
  subgraph in the map, as a recursive call has, only adds the call node and the return
  node and their two edges, whatever \<open>bf\<close> is: \<open>buildFunction\<close> is not entered.
\<close>

theorem buildFunction_recursion:
  "(length (funcs (M inp)) < fuel \<longrightarrow> buildFunction fuel inp f F s \<noteq> Inl OutOfFuel) \<and>
   (buildFunction fuel inp f F s = Inr (r, s') \<longrightarrow>
      r = rd_next s \<and>
      subgraphs_map s' f = Some \<lparr>root = Some (rd_next s), ret = Some (Suc (rd_next s))\<rparr> \<and>
      (\<forall>g subg. g \<noteq> f \<and> subgraphs_map s g = Some subg \<and> root subg \<noteq> None \<longrightarrow>
         subgraphs_map s' g = Some subg)) \<and>
   (subgraphs_map t f = Some \<lparr>root = Some root_node, ret = Some ret_node\<rparr> \<longrightarrow>
      createCallToFunction bf inp CInst (Some f) t =
        Inr ((Suc (rd_next t), rd_next t),
             addSuccessor ret_node (rd_next t)
               (addSuccessor (Suc (rd_next t)) root_node (snd (new_RDNode (snd (new_RDNode t)))))))"
proof (intro conjI impI allI)
  assume "length (funcs (M inp)) < fuel"
  with card_uncached_le [of inp s f] have "card (uncached inp s - {f}) < fuel"
    by simp
  then show "buildFunction fuel inp f F s \<noteq> Inl OutOfFuel"
    by (rule buildFunction_returns)
next
  assume run: "buildFunction fuel inp f F s = Inr (r, s')"
  then obtain n where fuel: "fuel = Suc n"
    by (cases fuel) simp_all
  with run have body: "buildFunction_body n (buildFunction n inp) inp f F s = Inr (r, s')"
    by simp
  note res = buildFunction_body_result [OF buildFunction_keeps body]
  show "r = rd_next s"
    by (rule res(1))
  show "subgraphs_map s' f = Some \<lparr>root = Some (rd_next s), ret = Some (Suc (rd_next s))\<rparr>"
    by (rule res(2))
  fix g subg
  assume g: "g \<noteq> f \<and> subgraphs_map s g = Some subg \<and> root subg \<noteq> None"
  then have "cached s g"
    by (simp add: cached_def subgraph_at_def)
  with res(3) [of g] g show "subgraphs_map s' g = Some subg"
    by simp
next
  assume "subgraphs_map t f = Some \<lparr>root = Some root_node, ret = Some ret_node\<rparr>"
  then show "createCallToFunction bf inp CInst (Some f) t =
        Inr ((Suc (rd_next t), rd_next t),
             addSuccessor ret_node (rd_next t)
               (addSuccessor (Suc (rd_next t)) root_node (snd (new_RDNode (snd (new_RDNode t))))))"
    by (rule createCallToFunction_cached)
qed

theorem buildFunction_recursion_witness:
  "length (funcs (M example_inputs)) < 7 \<and>
   buildFunction 7 example_inputs 104 example_h example_builder \<noteq> Inl OutOfFuel \<and>
   map_sum id (\<lambda>(r, s'). (r, subgraphs_map s' 104, subgraphs_map s' 105, rd_next s'))
     (buildFunction 7 example_inputs 104 example_h example_builder) =
     Inr (1, Some \<lparr>root = Some 1, ret = Some 2\<rparr>, Some \<lparr>root = Some 6, ret = Some 7\<rparr>, 13) \<and>
   map_sum id (\<lambda>(r, s'). (r, subgraphs_map s' 100, rd_next s'))
     (buildFunction 7 example_inputs 100 example_f example_builder) =
     Inr (1, Some \<lparr>root = Some 1, ret = Some 2\<rparr>, 7) \<and>
   createCallToFunction (buildFunction 0 example_inputs) example_inputs 1 (Some 100)
     (example_builder\<lparr>subgraphs_map := [100 \<mapsto> \<lparr>root = Some 1, ret = Some 2\<rparr>]\<rparr>) =
     Inr ((Suc (rd_next example_builder), rd_next example_builder),
          addSuccessor 2 (rd_next example_builder)
            (addSuccessor (Suc (rd_next example_builder)) 1
               (snd (new_RDNode (snd (new_RDNode
                  (example_builder\<lparr>subgraphs_map := [100 \<mapsto> \<lparr>root = Some 1, ret = Some 2\<rparr>]\<rparr>)))))))"
proof -
  have len: "length (funcs (M example_inputs)) < 7"
    by (simp add: example_defs)
  note inst = buildFunction_recursion
    [where inp = example_inputs and fuel = 7 and f = 104 and F = example_h
       and s = example_builder and r = 1 and s' = example_builder
       and t = example_builder and root_node = 1 and ret_node = 2
       and bf = "buildFunction 0 example_inputs" and CInst = 1]
  have returns: "buildFunction 7 example_inputs 104 example_h example_builder \<noteq> Inl OutOfFuel"
    by (rule inst [THEN conjunct1, THEN mp, OF len])
  note inst_f = buildFunction_recursion
    [where inp = example_inputs and fuel = 7 and f = 100 and F = example_f
       and s = example_builder and r = 1 and s' = example_builder
       and t = "example_builder\<lparr>subgraphs_map := [100 \<mapsto> \<lparr>root = Some 1, ret = Some 2\<rparr>]\<rparr>"
       and root_node = 1 and ret_node = 2
       and bf = "buildFunction 0 example_inputs" and CInst = 1]
  have cached: "createCallToFunction (buildFunction 0 example_inputs) example_inputs 1 (Some 100)
     (example_builder\<lparr>subgraphs_map := [100 \<mapsto> \<lparr>root = Some 1, ret = Some 2\<rparr>]\<rparr>) =
     Inr ((Suc (rd_next example_builder), rd_next example_builder),
          addSuccessor 2 (rd_next example_builder)
            (addSuccessor (Suc (rd_next example_builder)) 1
               (snd (new_RDNode (snd (new_RDNode
                  (example_builder\<lparr>subgraphs_map := [100 \<mapsto> \<lparr>root = Some 1, ret = Some 2\<rparr>]\<rparr>)))))))"
    using inst_f [THEN conjunct2, THEN conjunct2] by simp
  have h: "map_sum id (\<lambda>(r, s'). (r, subgraphs_map s' 104, subgraphs_map s' 105, rd_next s'))
     (buildFunction 7 example_inputs 104 example_h example_builder) =
     Inr (1, Some \<lparr>root = Some 1, ret = Some 2\<rparr>, Some \<lparr>root = Some 6, ret = Some 7\<rparr>, 13)"
    by (simp add: buildFunction_numeral example_defs rd_defs_simps Let_def)
  have f: "map_sum id (\<lambda>(r, s'). (r, subgraphs_map s' 100, rd_next s'))
     (buildFunction 7 example_inputs 100 example_f example_builder) =
     Inr (1, Some \<lparr>root = Some 1, ret = Some 2\<rparr>, 7)"
    by (simp add: buildFunction_numeral example_defs rd_defs_simps Let_def)
  show ?thesis
    by (intro conjI len returns h f cached)
qed


end
